theory Spec2Isabelle
  imports Main "HOL-Library.AList"
begin

unbundle bit_operations_syntax

section \<open>The extendible hash table of \<open>extendible_hash_final.cpp\<close>\<close>

text \<open>
  The class template \<open>ExtendibleHash<K, V>\<close> is embedded with explicit state passing.
  A \<open>std::shared_ptr<Bucket>\<close> is an address into a store of buckets (\<open>heap\<close>), or
  \<open>None\<close> for \<open>nullptr\<close>, so that several directory slots can alias one bucket as
  they do in the source. \<open>std::make_shared\<close> allocates the next free address.

  \<open>std::hash<K>\<close> is a library function; it is the parameter \<open>HashKey\<close> of every
  operation. A \<open>size_t\<close> is read as a natural number: the code only combines hashes
  and slot indices with \<open>&\<close>, which cannot overflow.

  The \<open>.cpp\<close> file calls the map of a bucket \<open>pairs\<close> in \<open>Find\<close> and \<open>Remove\<close>
  and \<open>pages\<close> in \<open>Insert\<close>; the header calls it \<open>contents\<close>. A bucket has one map,
  the field \<open>contents\<close> below: an association list with \<open>size()\<close> its length,
  \<open>find\<close> the lookup \<open>map_of\<close>, \<open>m[k] = v\<close> the update \<open>AList.update\<close>. The
  list keeps the entries in the order of their insertion and \<open>std::map\<close> in the order
  of their keys; no operation of the table shows the order. The operations keep the keys
  of a list distinct, so that its length is the size of the map.
  The locks (\<open>big_latch\<close>, \<open>latch\<close>) have no effect on a single thread and are left out.
\<close>

datatype error =
    Undefined \<comment> \<open>behaviour the C++ standard leaves undefined or implementation-defined\<close>
  | Thrown \<comment> \<open>an exception that reaches the caller\<close>

text \<open>
  The source has no \<open>throw\<close>, and the library calls it makes (vector subscript, shared
  pointer dereference, map \<open>find\<close>, \<open>erase\<close> and subscript) check nothing and throw
  nothing: no definition of this section produces \<open>Thrown\<close>. Exhaustion of memory is
  left out of this section; the next one adds it where the size of an allocation grows
  with the cascade of splits.
\<close>

record ('k, 'v) Bucket =
  localDepth :: int
  contents :: "('k \<times> 'v) list"

record ('k, 'v) ExtendibleHash =
  numBuckets :: int
  bucketsize :: nat
  globalDepth :: int
  bucket_directory :: "nat option list"
  pairs :: "('k \<times> 'v) list"
  heap :: "('k, 'v) Bucket list"

text \<open>
  The field \<open>pairs\<close> of the table is what the unqualified name \<open>pairs\<close> in
  \<open>Remove\<close> (\<open>pairs.erase(key)\<close>) denotes inside a member function of the table: it
  is not \<open>container -> pairs\<close>. No other line reads or writes it.
\<close>

text \<open>
  The constructor. The source writes \<open>std::make_shared<Bucket>\<close> without an argument;
  the first bucket is taken to have local depth 0.
\<close>

definition ExtendibleHash_init :: "nat \<Rightarrow> ('k, 'v) ExtendibleHash" where
  "ExtendibleHash_init sz =
     \<lparr>numBuckets = 0 + 1, bucketsize = sz, globalDepth = 0,
      bucket_directory = [Some 0], pairs = [],
      heap = [\<lparr>localDepth = 0, contents = []\<rparr>]\<rparr>"

text \<open>
  \<open>1 << n\<close> on the 32-bit \<open>int\<close> 1. For \<open>0 \<le> n < 31\<close> it is \<open>2 ^ n\<close>. Outside
  that range the shift is undefined (\<open>n < 0\<close>, \<open>n \<ge> 32\<close>) or gives a value that is not
  a positive \<open>int\<close> (\<open>n = 31\<close>), from which \<open>- 1\<close> overflows and which a conversion to
  \<open>size_t\<close> sign-extends: the model stops there.
\<close>

definition shl1 :: "int \<Rightarrow> nat option" where
  "shl1 n = (if 0 \<le> n \<and> n < 31 then Some (2 ^ nat n) else None)"

text \<open>\<open>HashKey(key) & ((1 << globalDepth) - 1)\<close>, the first line of the three operations.\<close>

definition bucket_index :: "('k \<Rightarrow> nat) \<Rightarrow> ('k, 'v) ExtendibleHash \<Rightarrow> 'k \<Rightarrow> error + nat" where
  "bucket_index HashKey s key =
     (case shl1 (globalDepth s) of
        None \<Rightarrow> Inl Undefined
      | Some m \<Rightarrow> Inr (HashKey key AND (m - 1)))"

text \<open>\<open>bucket_directory[i]\<close> for a \<open>size_t\<close> and for an \<open>int\<close> index: \<open>operator[]\<close> does not check.\<close>

definition slot :: "('k, 'v) ExtendibleHash \<Rightarrow> nat \<Rightarrow> error + nat option" where
  "slot s i =
     (if i < length (bucket_directory s) then Inr (bucket_directory s ! i) else Inl Undefined)"

definition slot_int :: "('k, 'v) ExtendibleHash \<Rightarrow> int \<Rightarrow> error + nat option" where
  "slot_int s i = (if 0 \<le> i then slot s (nat i) else Inl Undefined)"

text \<open>\<open>p -> ...\<close>: dereferencing a null pointer is undefined.\<close>

definition deref :: "('k, 'v) ExtendibleHash \<Rightarrow> nat option \<Rightarrow> error + ('k, 'v) Bucket" where
  "deref s p =
     (case p of
        None \<Rightarrow> Inl Undefined
      | Some a \<Rightarrow> if a < length (heap s) then Inr (heap s ! a) else Inl Undefined)"

definition GetGlobalDepth :: "('k, 'v) ExtendibleHash \<Rightarrow> int" where
  "GetGlobalDepth s = globalDepth s"

definition GetLocalDepth :: "('k, 'v) ExtendibleHash \<Rightarrow> int \<Rightarrow> error + int" where
  "GetLocalDepth s bucket_id =
     (case slot_int s bucket_id of
        Inl e \<Rightarrow> Inl e
      | Inr p \<Rightarrow> (case deref s p of Inl e \<Rightarrow> Inl e | Inr b \<Rightarrow> Inr (localDepth b)))"

definition GetNumBuckets :: "('k, 'v) ExtendibleHash \<Rightarrow> int" where
  "GetNumBuckets s = numBuckets s"

text \<open>
  \<open>Find\<close> returns \<open>Some value\<close> for \<open>true\<close> with \<open>value\<close> set, \<open>None\<close> for \<open>false\<close>.
  The source closes one brace more than it opens before \<open>return false\<close>; the statement
  is read as the end of the function body, where the indentation puts it.
\<close>

definition Find :: "('k \<Rightarrow> nat) \<Rightarrow> ('k, 'v) ExtendibleHash \<Rightarrow> 'k \<Rightarrow> error + 'v option" where
  "Find HashKey s key =
     (case bucket_index HashKey s key of
        Inl e \<Rightarrow> Inl e
      | Inr idx \<Rightarrow>
          (case slot s idx of
             Inl e \<Rightarrow> Inl e
           | Inr None \<Rightarrow> Inr None
           | Inr (Some a) \<Rightarrow>
               (case deref s (Some a) of
                  Inl e \<Rightarrow> Inl e
                | Inr container \<Rightarrow> Inr (map_of (contents container) key))))"

text \<open>
  \<open>Remove\<close> tests \<open>container -> pairs\<close> and then erases from \<open>pairs\<close>, the table's
  own member: the bucket is left as it was.
\<close>

definition Remove ::
  "('k \<Rightarrow> nat) \<Rightarrow> ('k, 'v) ExtendibleHash \<Rightarrow> 'k \<Rightarrow> error + (bool \<times> ('k, 'v) ExtendibleHash)" where
  "Remove HashKey s key =
     (case bucket_index HashKey s key of
        Inl e \<Rightarrow> Inl e
      | Inr idx \<Rightarrow>
          (case slot s idx of
             Inl e \<Rightarrow> Inl e
           | Inr None \<Rightarrow> Inr (False, s)
           | Inr (Some a) \<Rightarrow>
               (case deref s (Some a) of
                  Inl e \<Rightarrow> Inl e
                | Inr container \<Rightarrow>
                    if map_of (contents container) key \<noteq> None
                    then Inr (True, s\<lparr>pairs := AList.delete key (pairs s)\<rparr>)
                    else Inr (False, s))))"

text \<open>
  One pass through the body of the \<open>while (true)\<close> loop of \<open>Insert\<close> after the test
  for room has failed: the split of the bucket \<open>curr\<close>. \<open>numBuckets += 1\<close> on the
  largest \<open>int\<close> overflows, and \<open>int length = bucket_directory.size()\<close> does not keep
  a size above the largest \<open>int\<close>.
\<close>

definition split_bucket ::
  "('k \<Rightarrow> nat) \<Rightarrow> ('k, 'v) ExtendibleHash \<Rightarrow> nat \<Rightarrow> error + ('k, 'v) ExtendibleHash" where
  "split_bucket HashKey s cur =
     (case deref s (Some cur) of
        Inl e \<Rightarrow> Inl e
      | Inr b \<Rightarrow>
          (case shl1 (localDepth b) of
             None \<Rightarrow> Inl Undefined
           | Some mask_bit \<Rightarrow>
               let d = localDepth b + 1;
                   grow = (d > globalDepth s);
                   dir1 = (if grow then bucket_directory s @ bucket_directory s
                           else bucket_directory s);
                   new = length (heap s);
                   moved = filter (\<lambda>(k, v). HashKey k AND mask_bit \<noteq> 0) (contents b);
                   kept = filter (\<lambda>(k, v). \<not> (HashKey k AND mask_bit \<noteq> 0)) (contents b);
                   dir2 = map (\<lambda>(i, p). if p = Some cur \<and> i AND mask_bit \<noteq> 0 then Some new else p)
                            (enumerate 0 dir1)
               in if grow \<and> int (length (bucket_directory s)) > 2147483647 then Inl Undefined
                  else if numBuckets s \<ge> 2147483647 then Inl Undefined
                  else Inr (s\<lparr>numBuckets := numBuckets s + 1,
                              globalDepth := (if grow then globalDepth s + 1 else globalDepth s),
                              bucket_directory := dir2,
                              heap := (heap s)[cur := \<lparr>localDepth = d, contents = kept\<rparr>]
                                        @ [\<lparr>localDepth = d, contents = moved\<rparr>]\<rparr>)))"

text \<open>
  The loop. \<open>curr\<close> is assigned before the loop and nowhere inside it: every pass tests
  and splits the same bucket. The source puts no bound on the number of passes, so the
  result is an option, \<open>None\<close> for a loop that does not end.
\<close>

partial_function (option) Insert_loop ::
  "('k \<Rightarrow> nat) \<Rightarrow> ('k, 'v) ExtendibleHash \<Rightarrow> nat \<Rightarrow> 'k \<Rightarrow> 'v
     \<Rightarrow> (error + ('k, 'v) ExtendibleHash) option" where
  "Insert_loop HashKey s cur key val =
     (case deref s (Some cur) of
        Inl e \<Rightarrow> Some (Inl e)
      | Inr b \<Rightarrow>
          if map_of (contents b) key \<noteq> None \<or> length (contents b) < bucketsize s
          then Some (Inr (s\<lparr>heap := (heap s)[cur := b\<lparr>contents := AList.update key val (contents b)\<rparr>]\<rparr>))
          else (case split_bucket HashKey s cur of
                  Inl e \<Rightarrow> Some (Inl e)
                | Inr s' \<Rightarrow> Insert_loop HashKey s' cur key val))"

declare Insert_loop.simps [code]

text \<open>
  \<open>Insert\<close>. The two statements after the loop recompute \<open>id\<close> and \<open>curr\<close> and use
  neither; they are kept for the shift and the subscript they evaluate.
\<close>

definition Insert ::
  "('k \<Rightarrow> nat) \<Rightarrow> ('k, 'v) ExtendibleHash \<Rightarrow> 'k \<Rightarrow> 'v \<Rightarrow> (error + ('k, 'v) ExtendibleHash) option" where
  "Insert HashKey s key val =
     (case bucket_index HashKey s key of
        Inl e \<Rightarrow> Some (Inl e)
      | Inr idx \<Rightarrow>
          (case slot s idx of
             Inl e \<Rightarrow> Some (Inl e)
           | Inr None \<Rightarrow> Some (Inr s)
           | Inr (Some cur) \<Rightarrow>
               (case Insert_loop HashKey s cur key val of
                  None \<Rightarrow> None
                | Some (Inl e) \<Rightarrow> Some (Inl e)
                | Some (Inr s') \<Rightarrow>
                    (case bucket_index HashKey s' key of
                       Inl e \<Rightarrow> Some (Inl e)
                     | Inr idx' \<Rightarrow>
                         (case slot s' idx' of
                            Inl e \<Rightarrow> Some (Inl e)
                          | Inr _ \<Rightarrow> Some (Inr s'))))))"


section \<open>Allocation failure while the directory doubles\<close>

text \<open>
  \<open>bucket_directory.push_back\<close> throws \<open>std::bad_alloc\<close> when the vector cannot grow.
  A split that doubles the directory asks for twice its slots, so a cascade of splits
  asks for memory without bound until the allocator refuses. \<open>max_slots\<close> is the
  number of slots the allocator can give the directory: the doubling throws when the
  doubled directory would have more. The source catches nothing, so the exception
  reaches the caller of \<open>Insert\<close>. The other allocations of a pass (one bucket by
  \<open>make_shared\<close>, the map nodes of the entries that move) do not grow with the cascade
  and their failure stays left out.

  \<open>split_bucket_mem\<close> is \<open>split_bucket\<close> with this one outcome added, in the order of
  the source: the shift, then \<open>int length = bucket_directory.size()\<close>, then the
  \<open>push_back\<close> loop. \<open>Insert_loop_mem\<close> and \<open>Insert_mem\<close> are the loop and \<open>Insert\<close>
  over it. With memory for every directory that an \<open>int\<close> can count they are the
  definitions of the first section (\<open>Insert_mem_ample\<close> below), and whatever they
  return the first section returns too (\<open>Insert_mem_returns\<close>).
\<close>

definition split_bucket_mem ::
  "nat \<Rightarrow> ('k \<Rightarrow> nat) \<Rightarrow> ('k, 'v) ExtendibleHash \<Rightarrow> nat \<Rightarrow> error + ('k, 'v) ExtendibleHash" where
  "split_bucket_mem max_slots HashKey s cur =
     (case deref s (Some cur) of
        Inl e \<Rightarrow> Inl e
      | Inr b \<Rightarrow>
          (case shl1 (localDepth b) of
             None \<Rightarrow> Inl Undefined
           | Some mask_bit \<Rightarrow>
               if localDepth b + 1 > globalDepth s
               then (if int (length (bucket_directory s)) > 2147483647 then Inl Undefined
                     else if 2 * length (bucket_directory s) > max_slots then Inl Thrown
                     else split_bucket HashKey s cur)
               else split_bucket HashKey s cur))"

partial_function (option) Insert_loop_mem ::
  "nat \<Rightarrow> ('k \<Rightarrow> nat) \<Rightarrow> ('k, 'v) ExtendibleHash \<Rightarrow> nat \<Rightarrow> 'k \<Rightarrow> 'v
     \<Rightarrow> (error + ('k, 'v) ExtendibleHash) option" where
  "Insert_loop_mem max_slots HashKey s cur key val =
     (case deref s (Some cur) of
        Inl e \<Rightarrow> Some (Inl e)
      | Inr b \<Rightarrow>
          if map_of (contents b) key \<noteq> None \<or> length (contents b) < bucketsize s
          then Some (Inr (s\<lparr>heap := (heap s)[cur := b\<lparr>contents := AList.update key val (contents b)\<rparr>]\<rparr>))
          else (case split_bucket_mem max_slots HashKey s cur of
                  Inl e \<Rightarrow> Some (Inl e)
                | Inr s' \<Rightarrow> Insert_loop_mem max_slots HashKey s' cur key val))"

declare Insert_loop_mem.simps [code]

definition Insert_mem ::
  "nat \<Rightarrow> ('k \<Rightarrow> nat) \<Rightarrow> ('k, 'v) ExtendibleHash \<Rightarrow> 'k \<Rightarrow> 'v
     \<Rightarrow> (error + ('k, 'v) ExtendibleHash) option" where
  "Insert_mem max_slots HashKey s key val =
     (case bucket_index HashKey s key of
        Inl e \<Rightarrow> Some (Inl e)
      | Inr idx \<Rightarrow>
          (case slot s idx of
             Inl e \<Rightarrow> Some (Inl e)
           | Inr None \<Rightarrow> Some (Inr s)
           | Inr (Some cur) \<Rightarrow>
               (case Insert_loop_mem max_slots HashKey s cur key val of
                  None \<Rightarrow> None
                | Some (Inl e) \<Rightarrow> Some (Inl e)
                | Some (Inr s') \<Rightarrow>
                    (case bucket_index HashKey s' key of
                       Inl e \<Rightarrow> Some (Inl e)
                     | Inr idx' \<Rightarrow>
                         (case slot s' idx' of
                            Inl e \<Rightarrow> Some (Inl e)
                          | Inr _ \<Rightarrow> Some (Inr s'))))))"

section \<open>Sequences of operations\<close>

text \<open>
  A caller issues operations one after another on the table it constructed. \<open>run\<close>
  threads the state through them and stops at the first that does not complete.
  \<open>Find\<close> assigns to no member: the state after it is the state before.
\<close>

datatype ('k, 'v) operation = OpFind 'k | OpInsert 'k 'v | OpRemove 'k

fun run ::
  "('k \<Rightarrow> nat) \<Rightarrow> ('k, 'v) ExtendibleHash \<Rightarrow> ('k, 'v) operation list
     \<Rightarrow> (error + ('k, 'v) ExtendibleHash) option" where
  "run HashKey s [] = Some (Inr s)"
| "run HashKey s (OpFind key # ops) =
     (case Find HashKey s key of
        Inl e \<Rightarrow> Some (Inl e)
      | Inr _ \<Rightarrow> run HashKey s ops)"
| "run HashKey s (OpInsert key val # ops) =
     (case Insert HashKey s key val of
        None \<Rightarrow> None
      | Some (Inl e) \<Rightarrow> Some (Inl e)
      | Some (Inr s') \<Rightarrow> run HashKey s' ops)"
| "run HashKey s (OpRemove key # ops) =
     (case Remove HashKey s key of
        Inl e \<Rightarrow> Some (Inl e)
      | Inr (_, s') \<Rightarrow> run HashKey s' ops)"

text \<open>
  The count that the specification asks of \<open>GetNumBuckets\<close>: the addresses held by the
  directory slots, without repetition.
\<close>

definition distinct_bucket_count :: "('k, 'v) ExtendibleHash \<Rightarrow> nat" where
  "distinct_bucket_count s = length (remdups (List.map_filter (\<lambda>p. p) (bucket_directory s)))"

section \<open>The shape of the directory\<close>

text \<open>
  \<open>dir_ok\<close> is the invariant of the directory that the proofs carry through a split:
  the directory has \<open>2 ^ globalDepth\<close> slots, none of them null, each holding a live
  bucket whose local depth \<open>d\<close> is between 0 and the global depth, and the slots
  that alias one bucket are those that agree on their low \<open>d\<close> bits. \<open>wf\<close> adds the
  counter. \<open>keys_distinct\<close> says that no bucket lists a key twice. \<open>repoint\<close> is the
  last \<open>for\<close> loop of a split.
\<close>

definition dir_ok :: "int \<Rightarrow> nat option list \<Rightarrow> ('k, 'v) Bucket list \<Rightarrow> bool" where
  "dir_ok gd dir hp \<longleftrightarrow>
     0 \<le> gd \<and> length dir = 2 ^ nat gd \<and>
     (\<forall>i < length dir. \<exists>a. dir ! i = Some a \<and> a < length hp \<and>
          0 \<le> localDepth (hp ! a) \<and> localDepth (hp ! a) \<le> gd \<and>
          (\<forall>j < length dir.
             (dir ! j = Some a) =
             (take_bit (nat (localDepth (hp ! a))) j = take_bit (nat (localDepth (hp ! a))) i)))"

definition wf :: "('k, 'v) ExtendibleHash \<Rightarrow> bool" where
  "wf s \<longleftrightarrow>
     dir_ok (globalDepth s) (bucket_directory s) (heap s) \<and>
     numBuckets s = int (card {a. Some a \<in> set (bucket_directory s)})"

definition keys_distinct :: "('k, 'v) ExtendibleHash \<Rightarrow> bool" where
  "keys_distinct s \<longleftrightarrow> list_all (\<lambda>b. distinct (map fst (contents b))) (heap s)"

definition repoint :: "nat \<Rightarrow> nat \<Rightarrow> nat \<Rightarrow> nat option list \<Rightarrow> nat option list" where
  "repoint cur n new dir =
     map (\<lambda>(i, p). if p = Some cur \<and> bit i n then Some new else p) (enumerate 0 dir)"


text \<open>
  The discriminant invariant of the specification for one bucket: all keys stored in it
  agree on the low \<open>localDepth\<close> bits of their hash.
\<close>

definition discriminant_ok :: "('k \<Rightarrow> nat) \<Rightarrow> ('k, 'v) Bucket \<Rightarrow> bool" where
  "discriminant_ok HashKey b =
     list_all (\<lambda>(k, v). list_all (\<lambda>(k', v').
         take_bit (nat (localDepth b)) (HashKey k) = take_bit (nat (localDepth b)) (HashKey k'))
       (contents b)) (contents b)"

section \<open>Example tables\<close>

text \<open>
  Tables with natural numbers as keys and values. \<open>table_0_1_3\<close> is what three
  inserts of the keys 0, 1 and 3 (hashed to themselves) leave of a table whose buckets
  hold two entries, and \<open>table_0_1_2_3\<close> what a further insert of key 2 makes of
  it; \<open>table_5\<close> holds the one key 5; \<open>table_full\<close> has its
  single one-entry bucket full.
\<close>

definition table_0_1_3 :: "(nat, nat) ExtendibleHash" where
  "table_0_1_3 =
     \<lparr>numBuckets = 2, bucketsize = 2, globalDepth = 1,
      bucket_directory = [Some 0, Some 1], pairs = [],
      heap = [\<lparr>localDepth = 1, contents = [(0, 10), (3, 13)]\<rparr>,
              \<lparr>localDepth = 1, contents = [(1, 11)]\<rparr>]\<rparr>"

definition table_0_1_2_3 :: "(nat, nat) ExtendibleHash" where
  "table_0_1_2_3 =
     \<lparr>numBuckets = 3, bucketsize = 2, globalDepth = 2,
      bucket_directory = [Some 0, Some 1, Some 2, Some 1], pairs = [],
      heap = [\<lparr>localDepth = 2, contents = [(0, 10), (2, 12)]\<rparr>,
              \<lparr>localDepth = 1, contents = [(1, 11)]\<rparr>,
              \<lparr>localDepth = 2, contents = [(3, 13)]\<rparr>]\<rparr>"

definition table_5 :: "(nat, nat) ExtendibleHash" where
  "table_5 =
     \<lparr>numBuckets = 1, bucketsize = 2, globalDepth = 0,
      bucket_directory = [Some 0], pairs = [],
      heap = [\<lparr>localDepth = 0, contents = [(5, 50)]\<rparr>]\<rparr>"

definition table_full :: "(nat, nat) ExtendibleHash" where
  "table_full =
     \<lparr>numBuckets = 1, bucketsize = 1, globalDepth = 0,
      bucket_directory = [Some 0], pairs = [],
      heap = [\<lparr>localDepth = 0, contents = [(0, 10)]\<rparr>]\<rparr>"

section \<open>Auxiliary facts\<close>

lemma shl1_Some: "shl1 n = Some m \<longleftrightarrow> 0 \<le> n \<and> n < 31 \<and> m = 2 ^ nat n"
  by (auto simp: shl1_def)

lemma shl1_None: "shl1 n = None \<longleftrightarrow> \<not> (0 \<le> n \<and> n < 31)"
  by (auto simp: shl1_def)

lemma and_mask_nat: "(x::nat) AND (2 ^ n - Suc 0) = take_bit n x"
  by (simp add: take_bit_eq_mask mask_eq_exp_minus_1)

lemma bucket_index_Inr:
  "bucket_index h s k = Inr i \<longleftrightarrow>
     0 \<le> globalDepth s \<and> globalDepth s < 31 \<and> i = take_bit (nat (globalDepth s)) (h k)"
  by (auto simp: bucket_index_def shl1_Some shl1_None and_mask_nat split: option.splits)

lemma and_exp_pos_iff: "0 < (a::nat) AND 2 ^ n \<longleftrightarrow> bit a n"
  using and_exp_eq_0_iff_not_bit [of a n] by auto

lemma deref_Some_Inr: "deref s (Some a) = Inr b \<longleftrightarrow> a < length (heap s) \<and> b = heap s ! a"
  by (auto simp: deref_def)

lemma split_bucket_fields:
  assumes "split_bucket h s cur = Inr s'"
  defines "b \<equiv> heap s ! cur"
  defines "grow \<equiv> localDepth b + 1 > globalDepth s"
  shows "cur < length (heap s)" "0 \<le> localDepth b" "localDepth b < 31"
    "numBuckets s < 2147483647"
    "numBuckets s' = numBuckets s + 1"
    "bucketsize s' = bucketsize s"
    "pairs s' = pairs s"
    "globalDepth s' = (if grow then globalDepth s + 1 else globalDepth s)"
    "bucket_directory s' =
       repoint cur (nat (localDepth b)) (length (heap s))
         (if grow then bucket_directory s @ bucket_directory s else bucket_directory s)"
    "heap s' = (heap s)[cur := \<lparr>localDepth = localDepth b + 1,
                  contents = filter (\<lambda>(k, v). \<not> bit (h k) (nat (localDepth b))) (contents b)\<rparr>]
               @ [\<lparr>localDepth = localDepth b + 1,
                  contents = filter (\<lambda>(k, v). bit (h k) (nat (localDepth b))) (contents b)\<rparr>]"
  using assms(1) unfolding split_bucket_def repoint_def b_def grow_def
  by (auto simp: deref_def shl1_def Let_def and_exp_eq_0_iff_not_bit and_exp_pos_iff split: option.splits sum.splits if_splits)

lemma nth_repoint:
  "i < length dir \<Longrightarrow>
   repoint cur n new dir ! i = (if dir ! i = Some cur \<and> bit i n then Some new else dir ! i)"
  by (simp add: repoint_def nth_enumerate_eq)

lemma length_repoint [simp]: "length (repoint cur n new dir) = length dir"
  by (simp add: repoint_def)

lemma take_bit_Suc_eq_iff:
  "take_bit (Suc n) (i::nat) = take_bit (Suc n) j \<longleftrightarrow>
   take_bit n i = take_bit n j \<and> bit i n = bit j n"
proof -
  have *: "(2 ^ n * of_bool p + a = 2 ^ n * of_bool q + b) = (a = b \<and> p = q)"
    if "a < 2 ^ n" "b < 2 ^ n" for a b :: nat and p q
    using that by (cases p; cases q) auto
  show ?thesis
    unfolding take_bit_Suc_from_most
    by (rule *) (rule take_bit_nat_less_exp)+
qed

lemma nth_append_self:
  "i < 2 * length xs \<Longrightarrow> (xs @ xs) ! i = xs ! (i mod length xs)"
  by (cases "i < length xs") (auto simp: nth_append le_mod_geq)

lemma dir_ok_grow:
  assumes "dir_ok gd dir hp"
  shows "dir_ok (gd + 1) (dir @ dir) hp"
proof -
  from assms have gd: "0 \<le> gd" and len: "length dir = 2 ^ nat gd"
    by (auto simp: dir_ok_def)
  have nat_Suc: "nat (gd + 1) = Suc (nat gd)" using gd by simp
  have nth: "(dir @ dir) ! i = dir ! take_bit (nat gd) i" if "i < length (dir @ dir)" for i
    using that nth_append_self [of i dir] by (simp add: len take_bit_eq_mod)
  show ?thesis
    unfolding dir_ok_def
  proof (intro conjI allI impI)
    show "0 \<le> gd + 1" using gd by simp
    show "length (dir @ dir) = 2 ^ nat (gd + 1)" by (simp add: len nat_Suc)
  next
    fix i assume i: "i < length (dir @ dir)"
    let ?i = "take_bit (nat gd) i"
    have "?i < length dir" by (simp add: len take_bit_nat_less_exp)
    with assms obtain a where a: "dir ! ?i = Some a" "a < length hp"
      "0 \<le> localDepth (hp ! a)" "localDepth (hp ! a) \<le> gd"
      and al: "\<forall>j < length dir. (dir ! j = Some a) =
             (take_bit (nat (localDepth (hp ! a))) j = take_bit (nat (localDepth (hp ! a))) ?i)"
      unfolding dir_ok_def by blast
    let ?l = "nat (localDepth (hp ! a))"
    have l: "min ?l (nat gd) = ?l" using a gd by simp
    have "(dir @ dir) ! j = Some a \<longleftrightarrow> take_bit ?l j = take_bit ?l i"
      if j: "j < length (dir @ dir)" for j
    proof -
      have "take_bit (nat gd) j < length dir" by (simp add: len take_bit_nat_less_exp)
      with al have "(dir ! take_bit (nat gd) j = Some a) =
          (take_bit ?l (take_bit (nat gd) j) = take_bit ?l ?i)" by blast
      then show ?thesis using j by (simp add: nth take_bit_take_bit l)
    qed
    with a i show "\<exists>a. (dir @ dir) ! i = Some a \<and> a < length hp \<and>
          0 \<le> localDepth (hp ! a) \<and> localDepth (hp ! a) \<le> gd + 1 \<and>
          (\<forall>j < length (dir @ dir).
             ((dir @ dir) ! j = Some a) =
             (take_bit (nat (localDepth (hp ! a))) j = take_bit (nat (localDepth (hp ! a))) i))"
      by (intro exI [of _ a]) (simp add: nth)
  qed
qed

lemma not_bit_less_exp: "(x::nat) < 2 ^ n \<Longrightarrow> \<not> bit x n"
  by (simp add: bit_iff_odd)

lemma bit_add_exp: "(x::nat) < 2 ^ n \<Longrightarrow> bit (x + 2 ^ n) n"
proof -
  assume "x < 2 ^ n"
  moreover have "(x + 2 ^ n) div 2 ^ n = x div 2 ^ n + 1"
    by (rule div_add_self2) simp
  ultimately show ?thesis by (simp only: bit_iff_odd) simp
qed

lemma take_bit_add_exp: "take_bit n ((x::nat) + 2 ^ n) = take_bit n x"
  by (simp add: take_bit_eq_mod)

lemma dir_ok_repoint:
  assumes ok: "dir_ok gd dir hp" and cur: "Some cur \<in> set dir"
    and d: "localDepth (hp ! cur) + 1 \<le> gd"
    and b1: "localDepth b1 = localDepth (hp ! cur) + 1"
    and b2: "localDepth b2 = localDepth (hp ! cur) + 1"
  defines "n \<equiv> nat (localDepth (hp ! cur))"
  defines "dir' \<equiv> repoint cur n (length hp) dir"
  shows "dir_ok gd dir' (hp[cur := b1] @ [b2])"
    and "{a. Some a \<in> set dir'} = insert (length hp) {a. Some a \<in> set dir}"
    and "length hp \<notin> {a. Some a \<in> set dir}"
    and "Some cur \<in> set dir'"
proof -
  let ?hp = "hp[cur := b1] @ [b2]"
  from ok have gd: "0 \<le> gd" and len: "length dir = 2 ^ nat gd"
    by (auto simp: dir_ok_def)
  from ok have slots: "\<exists>a. dir ! i = Some a \<and> a < length hp \<and>
          0 \<le> localDepth (hp ! a) \<and> localDepth (hp ! a) \<le> gd \<and>
          (\<forall>j < length dir.
             (dir ! j = Some a) =
             (take_bit (nat (localDepth (hp ! a))) j = take_bit (nat (localDepth (hp ! a))) i))"
    if "i < length dir" for i
    using that unfolding dir_ok_def by blast
  from cur obtain i0 where i0: "i0 < length dir" "dir ! i0 = Some cur"
    by (auto simp: in_set_conv_nth)
  from slots [OF i0(1)] i0(2) have curlt: "cur < length hp" and ld0: "0 \<le> localDepth (hp ! cur)"
    and cls: "\<And>j. j < length dir \<Longrightarrow> (dir ! j = Some cur) = (take_bit n j = take_bit n i0)"
    by (auto simp: n_def)
  have Sucn: "nat (localDepth (hp ! cur) + 1) = Suc n" using ld0 by (simp add: n_def)
  have refs: "a < length hp" if "Some a \<in> set dir" for a
    using that slots by (auto simp: in_set_conv_nth) (metis option.inject)
  show fresh: "length hp \<notin> {a. Some a \<in> set dir}"
    using refs by blast
  have nth': "dir' ! i = (if dir ! i = Some cur \<and> bit i n then Some (length hp) else dir ! i)"
    if "i < length dir" for i
    using that by (simp add: dir'_def nth_repoint)
  have len': "length dir' = length dir" by (simp add: dir'_def)
  have hp_old: "?hp ! a = (if a = cur then b1 else hp ! a)" if "a < length hp" for a
    using that by (simp add: nth_append)
  have hp_new: "?hp ! length hp = b2" by (simp add: nth_append)
  have exp_le: "(2::nat) ^ Suc n \<le> length dir"
    unfolding len using d ld0 by (intro power_increasing) (simp_all add: n_def)
  let ?lo = "take_bit n i0"
  let ?hi = "take_bit n i0 + 2 ^ n"
  have lo_lt: "?lo < 2 ^ n" by (rule take_bit_nat_less_exp)
  have exp_le': "2 * 2 ^ n \<le> length dir" using exp_le by simp
  have lo1: "?lo < length dir" using lo_lt exp_le' by linarith
  have hi1: "?hi < length dir" using lo_lt exp_le' by linarith
  have lo: "?lo < length dir" "dir ! ?lo = Some cur" "\<not> bit ?lo n"
    using lo1 cls [OF lo1] not_bit_less_exp [OF lo_lt] by simp_all
  have hi: "?hi < length dir" "dir ! ?hi = Some cur" "bit ?hi n"
    using hi1 cls [OF hi1] bit_add_exp [OF lo_lt] by (simp_all add: take_bit_add_exp)
  from lo have lo': "dir' ! ?lo = Some cur" by (simp add: nth')
  from hi have hi': "dir' ! ?hi = Some (length hp)" by (simp add: nth')
  show "Some cur \<in> set dir'"
    using lo(1) lo' len' by (metis nth_mem)
  show "{a. Some a \<in> set dir'} = insert (length hp) {a. Some a \<in> set dir}"
  proof (intro equalityI subsetI)
    fix a assume "a \<in> {a. Some a \<in> set dir'}"
    then obtain j where j: "j < length dir" "dir' ! j = Some a"
      by (auto simp: in_set_conv_nth len')
    then have "a = length hp \<or> dir ! j = Some a"
      by (auto simp: nth' split: if_splits)
    moreover have "Some a \<in> set dir" if "dir ! j = Some a"
      using nth_mem [OF j(1)] that by simp
    ultimately show "a \<in> insert (length hp) {a. Some a \<in> set dir}"
      by blast
  next
    fix a assume a: "a \<in> insert (length hp) {a. Some a \<in> set dir}"
    show "a \<in> {a. Some a \<in> set dir'}"
    proof (cases "a = length hp")
      case True
      then show ?thesis using hi(1) hi' len' by (metis mem_Collect_eq nth_mem)
    next
      case False
      with a obtain j where j: "j < length dir" "dir ! j = Some a"
        by (auto simp: in_set_conv_nth)
      show ?thesis
      proof (cases "a = cur")
        case True
        then show ?thesis using lo(1) lo' len' by (metis mem_Collect_eq nth_mem)
      next
        case False
        with j have "dir' ! j = Some a" by (simp add: nth')
        then show ?thesis using j(1) len' by (metis mem_Collect_eq nth_mem)
      qed
    qed
  qed
  show "dir_ok gd dir' ?hp"
    unfolding dir_ok_def len'
  proof (intro conjI allI impI)
    show "0 \<le> gd" by (rule gd)
    show "length dir = 2 ^ nat gd" by (rule len)
  next
    fix i assume i: "i < length dir"
    from slots [OF i] obtain a where a: "dir ! i = Some a" "a < length hp"
      "0 \<le> localDepth (hp ! a)" "localDepth (hp ! a) \<le> gd"
      and al: "\<And>j. j < length dir \<Longrightarrow> (dir ! j = Some a) =
             (take_bit (nat (localDepth (hp ! a))) j = take_bit (nat (localDepth (hp ! a))) i)"
      by blast
    show "\<exists>a. dir' ! i = Some a \<and> a < length ?hp \<and>
          0 \<le> localDepth (?hp ! a) \<and> localDepth (?hp ! a) \<le> gd \<and>
          (\<forall>j < length dir.
             (dir' ! j = Some a) =
             (take_bit (nat (localDepth (?hp ! a))) j = take_bit (nat (localDepth (?hp ! a))) i))"
    proof (cases "a = cur")
      case False
      have "(dir' ! j = Some a) = (dir ! j = Some a)" if "j < length dir" for j
        using that False a(2) by (auto simp: nth')
      with a al i False show ?thesis
        by (intro exI [of _ a]) (simp add: nth' hp_old)
    next
      case True
      with a i cls have ti: "take_bit n i = take_bit n i0" by simp
      show ?thesis
      proof (cases "bit i n")
        case False
        have "(dir' ! j = Some cur) = (take_bit (Suc n) j = take_bit (Suc n) i)"
          if "j < length dir" for j
          using that False curlt cls [of j] ti by (auto simp: nth' take_bit_Suc_eq_iff)
        with a i True False d ld0 curlt show ?thesis
          by (intro exI [of _ cur]) (simp add: nth' hp_old b1 Sucn)
      next
        case bit: True
        have "(dir' ! j = Some (length hp)) = (take_bit (Suc n) j = take_bit (Suc n) i)"
          if "j < length dir" for j
          using that bit refs cls [of j] ti fresh
          by (auto simp: nth' take_bit_Suc_eq_iff dest: nth_mem)
        with a i True bit d ld0 show ?thesis
          by (intro exI [of _ "length hp"]) (simp add: nth' hp_new b2 Sucn)
      qed
    qed
  qed
qed

lemma finite_refs: "finite {a. Some a \<in> set dir}"
proof -
  have "{a. Some a \<in> set dir} = Some -` set dir" by auto
  then show ?thesis by (simp add: finite_vimageI)
qed

lemma dir_ok_cur:
  assumes "dir_ok gd dir hp" "Some cur \<in> set dir"
  shows "cur < length hp" "0 \<le> localDepth (hp ! cur)" "localDepth (hp ! cur) \<le> gd"
proof -
  from assms(2) obtain i where i: "i < length dir" "dir ! i = Some cur"
    by (auto simp: in_set_conv_nth)
  with assms(1) have "\<exists>a. dir ! i = Some a \<and> a < length hp \<and>
          0 \<le> localDepth (hp ! a) \<and> localDepth (hp ! a) \<le> gd"
    unfolding dir_ok_def by blast
  with i show "cur < length hp" "0 \<le> localDepth (hp ! cur)" "localDepth (hp ! cur) \<le> gd"
    by auto
qed

lemma split_bucket_wf:
  assumes wf: "wf s" and cur: "Some cur \<in> set (bucket_directory s)"
    and split: "split_bucket h s cur = Inr s'"
  shows "wf s'" and "Some cur \<in> set (bucket_directory s')"
proof -
  let ?b = "heap s ! cur"
  let ?grow = "localDepth ?b + 1 > globalDepth s"
  let ?gd = "if ?grow then globalDepth s + 1 else globalDepth s"
  let ?dir = "if ?grow then bucket_directory s @ bucket_directory s else bucket_directory s"
  note f = split_bucket_fields [OF split]
  from wf have ok: "dir_ok (globalDepth s) (bucket_directory s) (heap s)"
    and nb: "numBuckets s = int (card {a. Some a \<in> set (bucket_directory s)})"
    by (auto simp: wf_def)
  note c = dir_ok_cur [OF ok cur]
  have ok1: "dir_ok ?gd ?dir (heap s)"
    using ok dir_ok_grow [OF ok] by simp
  have cur1: "Some cur \<in> set ?dir" using cur by simp
  have d1: "localDepth ?b + 1 \<le> ?gd" using c(3) by simp
  have set1: "set ?dir = set (bucket_directory s)" by simp
  note r = dir_ok_repoint [OF ok1 cur1 d1, where
      ?b1.0 = "\<lparr>localDepth = localDepth ?b + 1,
                  contents = filter (\<lambda>(k, v). \<not> bit (h k) (nat (localDepth ?b))) (contents ?b)\<rparr>"
      and ?b2.0 = "\<lparr>localDepth = localDepth ?b + 1,
                  contents = filter (\<lambda>(k, v). bit (h k) (nat (localDepth ?b))) (contents ?b)\<rparr>"]
  have ok': "dir_ok (globalDepth s') (bucket_directory s') (heap s')"
    using r(1) by (simp add: f)
  have "card {a. Some a \<in> set (bucket_directory s')} =
        Suc (card {a. Some a \<in> set (bucket_directory s)})"
    using r(2) r(3) unfolding f(9) set1
    by (simp add: finite_refs)
  with nb ok' show "wf s'" by (simp add: wf_def f(5))
  show "Some cur \<in> set (bucket_directory s')"
    using r(4) by (simp add: f)
qed

lemma dir_ok_heap_cong:
  assumes "dir_ok gd dir hp" "length hp' = length hp"
    "\<And>a. a < length hp \<Longrightarrow> localDepth (hp' ! a) = localDepth (hp ! a)"
  shows "dir_ok gd dir hp'"
  using assms unfolding dir_ok_def
  by (metis (no_types, lifting))

lemma Insert_loop_rule:
  fixes h :: "'k \<Rightarrow> nat" and s :: "('k, 'v) ExtendibleHash"
  assumes res: "Insert_loop h s cur k v = Some (Inr s')"
    and P: "P s"
    and step: "\<And>t t'. P t \<Longrightarrow> split_bucket h t cur = Inr t' \<Longrightarrow> P t'"
  shows "\<exists>t. P t \<and> cur < length (heap t) \<and>
           (map_of (contents (heap t ! cur)) k \<noteq> None \<or>
            length (contents (heap t ! cur)) < bucketsize t) \<and>
           s' = t\<lparr>heap := (heap t)[cur := (heap t ! cur)\<lparr>contents :=
                     AList.update k v (contents (heap t ! cur))\<rparr>]\<rparr>"
proof -
  let ?G = "\<lambda>s'. \<exists>t. P t \<and> cur < length (heap t) \<and>
           (map_of (contents (heap t ! cur)) k \<noteq> None \<or>
            length (contents (heap t ! cur)) < bucketsize t) \<and>
           s' = t\<lparr>heap := (heap t)[cur := (heap t ! cur)\<lparr>contents :=
                     AList.update k v (contents (heap t ! cur))\<rparr>]\<rparr>"
  define Q where "Q = (\<lambda>h0 s0 c0 k0 v0 (y :: error + ('k, 'v) ExtendibleHash).
     h0 = h \<longrightarrow> c0 = cur \<longrightarrow> k0 = k \<longrightarrow> v0 = v \<longrightarrow> P s0 \<longrightarrow> (\<forall>s'. y = Inr s' \<longrightarrow> ?G s'))"
  have "Q h s cur k v (Inr s')"
  proof (rule Insert_loop.raw_induct [OF _ res])
    fix loop :: "('k \<Rightarrow> nat) \<Rightarrow> ('k, 'v) ExtendibleHash \<Rightarrow> nat \<Rightarrow> 'k \<Rightarrow> 'v
        \<Rightarrow> (error + ('k, 'v) ExtendibleHash) option"
      and h0 s0 c0 k0 v0 y
    assume IH: "\<And>h0 s0 c0 k0 v0 y. loop h0 s0 c0 k0 v0 = Some y \<Longrightarrow> Q h0 s0 c0 k0 v0 y"
      and body: "(case deref s0 (Some c0) of
          Inl e \<Rightarrow> Some (Inl e)
        | Inr b \<Rightarrow>
            if map_of (contents b) k0 \<noteq> None \<or> length (contents b) < bucketsize s0
            then Some (Inr (s0\<lparr>heap := (heap s0)[c0 := b\<lparr>contents :=
                    AList.update k0 v0 (contents b)\<rparr>]\<rparr>))
            else (case split_bucket h0 s0 c0 of
                    Inl e \<Rightarrow> Some (Inl e)
                  | Inr s' \<Rightarrow> loop h0 s' c0 k0 v0)) = Some y"
    show "Q h0 s0 c0 k0 v0 y"
      unfolding Q_def
    proof (intro impI allI)
      fix s'
      assume eqs: "h0 = h" "c0 = cur" "k0 = k" "v0 = v" "y = Inr s'" and Ps: "P s0"
      show "?G s'"
      proof (cases "map_of (contents (heap s0 ! cur)) k \<noteq> None \<or>
            length (contents (heap s0 ! cur)) < bucketsize s0")
        case True
        with body eqs Ps show ?thesis
          by (intro exI [of _ s0]) (auto simp: deref_def split: if_splits sum.splits)
      next
        case False
        with body eqs obtain s1 where s1: "split_bucket h s0 cur = Inr s1"
          "loop h s1 cur k v = Some (Inr s')"
          by (auto simp: deref_def split: if_splits sum.splits)
        from step [OF Ps s1(1)] IH [OF s1(2)] show ?thesis by (simp add: Q_def)
      qed
    qed
  qed
  with P show ?thesis by (simp add: Q_def)
qed

lemma split_bucket_mono:
  assumes "split_bucket h s cur = Inr s'"
  shows "globalDepth s \<le> globalDepth s'" "numBuckets s \<le> numBuckets s'"
    "length (bucket_directory s) \<le> length (bucket_directory s')"
    "bucketsize s' = bucketsize s" "pairs s' = pairs s"
  using split_bucket_fields [OF assms] by simp_all

lemma Insert_loop_wf:
  assumes "wf s" "Some cur \<in> set (bucket_directory s)"
    and "Insert_loop h s cur k v = Some (Inr s')"
  shows "wf s'"
proof -
  let ?P = "\<lambda>t. wf t \<and> Some cur \<in> set (bucket_directory t)"
  have "\<exists>t. ?P t \<and> cur < length (heap t) \<and>
           (map_of (contents (heap t ! cur)) k \<noteq> None \<or>
            length (contents (heap t ! cur)) < bucketsize t) \<and>
           s' = t\<lparr>heap := (heap t)[cur := (heap t ! cur)\<lparr>contents :=
                     AList.update k v (contents (heap t ! cur))\<rparr>]\<rparr>"
  proof (rule Insert_loop_rule [OF assms(3), where P = ?P])
    show "?P s" using assms(1,2) by simp
    show "?P t'" if "?P t" "split_bucket h t cur = Inr t'" for t t'
      using split_bucket_wf [OF _ _ that(2)] that(1) by simp
  qed
  then obtain t where t: "wf t" "cur < length (heap t)"
    "s' = t\<lparr>heap := (heap t)[cur := (heap t ! cur)\<lparr>contents :=
                     AList.update k v (contents (heap t ! cur))\<rparr>]\<rparr>"
    by (elim exE conjE)
  have "dir_ok (globalDepth t) (bucket_directory t)
          ((heap t)[cur := (heap t ! cur)\<lparr>contents := AList.update k v (contents (heap t ! cur))\<rparr>])"
  proof (rule dir_ok_heap_cong)
    show "dir_ok (globalDepth t) (bucket_directory t) (heap t)"
      using t(1) by (simp add: wf_def)
    show "localDepth ((heap t)[cur := (heap t ! cur)\<lparr>contents :=
              AList.update k v (contents (heap t ! cur))\<rparr>] ! a) = localDepth (heap t ! a)"
      if "a < length (heap t)" for a
      using that t(2) by (cases "a = cur") simp_all
  qed simp
  with t show ?thesis by (simp add: wf_def)
qed

lemma Insert_loop_mono:
  assumes "Insert_loop h s cur k v = Some (Inr s')"
  shows "globalDepth s \<le> globalDepth s'" "numBuckets s \<le> numBuckets s'"
    "length (bucket_directory s) \<le> length (bucket_directory s')"
    "bucketsize s' = bucketsize s" "pairs s' = pairs s"
proof -
  let ?P = "\<lambda>t. globalDepth s \<le> globalDepth t \<and>
      numBuckets s \<le> numBuckets t \<and> length (bucket_directory s) \<le> length (bucket_directory t) \<and>
      bucketsize t = bucketsize s \<and> pairs t = pairs s"
  have "\<exists>t. ?P t \<and> cur < length (heap t) \<and>
           (map_of (contents (heap t ! cur)) k \<noteq> None \<or>
            length (contents (heap t ! cur)) < bucketsize t) \<and>
           s' = t\<lparr>heap := (heap t)[cur := (heap t ! cur)\<lparr>contents :=
                     AList.update k v (contents (heap t ! cur))\<rparr>]\<rparr>"
  proof (rule Insert_loop_rule [OF assms, where P = ?P])
    show "?P s" by simp
    show "?P t'" if "?P t" "split_bucket h t cur = Inr t'" for t t'
      using that(1) split_bucket_mono [OF that(2)] by simp
  qed
  then obtain t where "globalDepth s \<le> globalDepth t" "numBuckets s \<le> numBuckets t"
    "length (bucket_directory s) \<le> length (bucket_directory t)"
    "bucketsize t = bucketsize s" "pairs t = pairs s"
    "s' = t\<lparr>heap := (heap t)[cur := (heap t ! cur)\<lparr>contents :=
                     AList.update k v (contents (heap t ! cur))\<rparr>]\<rparr>"
    by (elim exE conjE)
  then show "globalDepth s \<le> globalDepth s'" "numBuckets s \<le> numBuckets s'"
    "length (bucket_directory s) \<le> length (bucket_directory s')"
    "bucketsize s' = bucketsize s" "pairs s' = pairs s"
    by simp_all
qed

lemma slot_Inr: "slot s i = Inr p \<longleftrightarrow> i < length (bucket_directory s) \<and> p = bucket_directory s ! i"
  by (auto simp: slot_def)

lemma Insert_Inr:
  assumes "Insert h s k v = Some (Inr s')"
  shows "s' = s \<or> (\<exists>cur. Some cur \<in> set (bucket_directory s) \<and>
           Insert_loop h s cur k v = Some (Inr s'))"
  using assms unfolding Insert_def
  by (auto simp: slot_Inr split: sum.splits option.splits dest: nth_mem)

lemma Insert_wf:
  assumes "wf s" "Insert h s k v = Some (Inr s')"
  shows "wf s'"
  using Insert_Inr [OF assms(2)] assms(1) Insert_loop_wf [of s _ h k v s'] by auto

lemma Remove_fields:
  assumes "Remove h s k = Inr (r, s')"
  shows "numBuckets s' = numBuckets s" "globalDepth s' = globalDepth s"
    "bucket_directory s' = bucket_directory s" "heap s' = heap s"
    "bucketsize s' = bucketsize s"
  using assms unfolding Remove_def
  by (auto split: sum.splits option.splits if_splits)

lemma Remove_wf: "wf s \<Longrightarrow> Remove h s k = Inr (r, s') \<Longrightarrow> wf s'"
  by (simp add: wf_def Remove_fields)

lemma init_wf: "wf (ExtendibleHash_init n)"
proof -
  have "{a. Some a \<in> set [Some (0::nat)]} = {0}" by auto
  moreover have "dir_ok 0 [Some 0] [\<lparr>localDepth = 0, contents = []\<rparr>]"
    unfolding dir_ok_def by simp
  ultimately show ?thesis
    unfolding wf_def ExtendibleHash_init_def by simp
qed

lemma run_wf: "wf s \<Longrightarrow> run h s ops = Some (Inr s') \<Longrightarrow> wf s'"
proof (induction ops arbitrary: s)
  case Nil
  then show ?case by simp
next
  case (Cons op ops)
  show ?case
  proof (cases op)
    case (OpFind k)
    with Cons show ?thesis by (auto split: sum.splits)
  next
    case (OpInsert k v)
    with Cons.prems obtain s1 where s1: "Insert h s k v = Some (Inr s1)" "run h s1 ops = Some (Inr s')"
      by (auto split: sum.splits option.splits)
    show ?thesis
      by (rule Cons.IH [OF Insert_wf [OF Cons.prems(1) s1(1)] s1(2)])
  next
    case (OpRemove k)
    with Cons.prems obtain r s1 where s1: "Remove h s k = Inr (r, s1)" "run h s1 ops = Some (Inr s')"
      by (auto split: sum.splits)
    show ?thesis
      by (rule Cons.IH [OF Remove_wf [OF Cons.prems(1) s1(1)] s1(2)])
  qed
qed

lemma Insert_mono:
  assumes "Insert h s k v = Some (Inr s')"
  shows "globalDepth s \<le> globalDepth s'" "numBuckets s \<le> numBuckets s'"
    "length (bucket_directory s) \<le> length (bucket_directory s')"
proof -
  from Insert_Inr [OF assms]
  have "globalDepth s \<le> globalDepth s' \<and> numBuckets s \<le> numBuckets s' \<and>
    length (bucket_directory s) \<le> length (bucket_directory s')"
  proof
    assume "s' = s"
    then show ?thesis by simp
  next
    assume "\<exists>cur. Some cur \<in> set (bucket_directory s) \<and>
           Insert_loop h s cur k v = Some (Inr s')"
    then obtain cur where "Insert_loop h s cur k v = Some (Inr s')" by (elim exE conjE)
    from Insert_loop_mono(1-3) [OF this] show ?thesis by simp
  qed
  then show "globalDepth s \<le> globalDepth s'" "numBuckets s \<le> numBuckets s'"
    "length (bucket_directory s) \<le> length (bucket_directory s')"
    by simp_all
qed

lemma run_mono:
  "run h s ops = Some (Inr s') \<Longrightarrow>
   globalDepth s \<le> globalDepth s' \<and> numBuckets s \<le> numBuckets s' \<and>
   length (bucket_directory s) \<le> length (bucket_directory s')"
proof (induction ops arbitrary: s)
  case Nil
  then show ?case by simp
next
  case (Cons op ops)
  show ?case
  proof (cases op)
    case (OpFind k)
    with Cons show ?thesis by (auto split: sum.splits)
  next
    case (OpInsert k v)
    with Cons.prems obtain s1 where s1: "Insert h s k v = Some (Inr s1)" "run h s1 ops = Some (Inr s')"
      by (auto split: sum.splits option.splits)
    from Insert_mono [OF s1(1)] Cons.IH [OF s1(2)] show ?thesis by linarith
  next
    case (OpRemove k)
    with Cons.prems obtain r s1 where s1: "Remove h s k = Inr (r, s1)" "run h s1 ops = Some (Inr s')"
      by (auto split: sum.splits)
    from Remove_fields [OF s1(1)] Cons.IH [OF s1(2)] show ?thesis by simp
  qed
qed

lemma run_wf_init: "run h (ExtendibleHash_init n) ops = Some (Inr s) \<Longrightarrow> wf s"
  by (rule run_wf [OF init_wf])

lemma set_map_filter_id: "set (List.map_filter (\<lambda>p. p) dir) = {a. Some a \<in> set dir}"
  by (induction dir) (auto simp: List.map_filter_simps split: option.splits)

lemma distinct_bucket_count_card:
  "distinct_bucket_count s = card {a. Some a \<in> set (bucket_directory s)}"
  by (simp add: distinct_bucket_count_def length_remdups_card_conv set_map_filter_id)

lemma wf_slot:
  assumes "wf s" "i < length (bucket_directory s)"
  shows "\<exists>a. bucket_directory s ! i = Some a \<and> a < length (heap s) \<and>
          0 \<le> localDepth (heap s ! a) \<and> localDepth (heap s ! a) \<le> globalDepth s"
  using assms unfolding wf_def dir_ok_def by blast

lemma wf_length:
  assumes "wf s"
  shows "0 \<le> globalDepth s" "length (bucket_directory s) = 2 ^ nat (globalDepth s)"
  using assms unfolding wf_def dir_ok_def by simp_all

lemma split_bucket_Inl: "split_bucket h s cur = Inl e \<Longrightarrow> e = Undefined"
  unfolding split_bucket_def
  by (auto simp: deref_def Let_def split: option.splits sum.splits if_splits)

lemma filter_all: "\<forall>x \<in> set xs. P x \<Longrightarrow> filter P xs = xs"
  by (induction xs) auto

lemma Insert_loop_stuck:
  assumes "cur < length (heap s)"
    and "map_of (contents (heap s ! cur)) k = None"
    and "bucketsize s \<le> length (contents (heap s ! cur))"
    and "\<forall>(k', v') \<in> set (contents (heap s ! cur)). h k' < 2 ^ nat (localDepth (heap s ! cur))"
  shows "Insert_loop h s cur k v = Some (Inl Undefined)"
  using assms
proof (induction "nat (31 - localDepth (heap s ! cur))" arbitrary: s rule: less_induct)
  case less
  let ?b = "heap s ! cur"
  show ?case
  proof (cases "split_bucket h s cur")
    case (Inl e)
    with split_bucket_Inl [OF Inl] less.prems show ?thesis
      by (subst Insert_loop.simps) (simp add: deref_def)
  next
    case (Inr s1)
    note f = split_bucket_fields [OF Inr]
    have nobit: "\<forall>x \<in> set (contents ?b). (case x of (k', v') \<Rightarrow> \<not> bit (h k') (nat (localDepth ?b)))"
      using less.prems(4) by (auto dest: not_bit_less_exp)
    have b1: "heap s1 ! cur = \<lparr>localDepth = localDepth ?b + 1, contents = contents ?b\<rparr>"
      using f(1) by (simp add: f(10) nth_append filter_all [OF nobit])
    have m: "nat (31 - localDepth (heap s1 ! cur)) < nat (31 - localDepth ?b)"
      using f(3) by (simp add: b1)
    have le: "(2::nat) ^ nat (localDepth ?b) \<le> 2 ^ nat (localDepth ?b + 1)"
      by (rule power_increasing) simp_all
    have "Insert_loop h s1 cur k v = Some (Inl Undefined)"
    proof (rule less.hyps [OF m])
      show "cur < length (heap s1)" using f(1) by (simp add: f(10))
      show "map_of (contents (heap s1 ! cur)) k = None" using less.prems(2) by (simp add: b1)
      show "bucketsize s1 \<le> length (contents (heap s1 ! cur))"
        using less.prems(3) by (simp add: b1 f(6))
      show "\<forall>(k', v') \<in> set (contents (heap s1 ! cur)). h k' < 2 ^ nat (localDepth (heap s1 ! cur))"
        using less.prems(4) le unfolding b1 by (auto intro: less_le_trans)
    qed
    with Inr less.prems show ?thesis
      by (subst Insert_loop.simps) (simp add: deref_def)
  qed
qed

lemma Insert_stuck:
  assumes "bucket_index h s k = Inr idx" and "slot s idx = Inr (Some cur)"
    and "cur < length (heap s)"
    and "map_of (contents (heap s ! cur)) k = None"
    and "bucketsize s \<le> length (contents (heap s ! cur))"
    and "\<forall>(k', v') \<in> set (contents (heap s ! cur)). h k' < 2 ^ nat (localDepth (heap s ! cur))"
  shows "Insert h s k v = Some (Inl Undefined)"
  using assms(1,2) Insert_loop_stuck [OF assms(3-6), of v]
  by (simp add: Insert_def)

text \<open>
  The loop with allocation failure: it ends for every bound on the memory; with ample
  memory it is the loop of the first section; what it returns the first section returns.
\<close>

lemma split_bucket_mem_Inr:
  "split_bucket_mem lim h s cur = Inr s' \<Longrightarrow> split_bucket h s cur = Inr s'"
  unfolding split_bucket_mem_def
  by (auto split: sum.splits option.splits if_splits)

lemma split_bucket_mem_ample:
  assumes "4294967296 \<le> lim"
  shows "split_bucket_mem lim h s cur = split_bucket h s cur"
proof -
  have "\<not> 2 * length (bucket_directory s) > lim"
    if "\<not> int (length (bucket_directory s)) > 2147483647"
    using that assms by linarith
  then show ?thesis
    unfolding split_bucket_mem_def split_bucket_def
    by (auto simp: Let_def split: sum.splits option.splits)
qed

lemma split_bucket_depth:
  assumes "split_bucket h s cur = Inr s1"
  shows "nat (31 - localDepth (heap s1 ! cur)) < nat (31 - localDepth (heap s ! cur))"
proof -
  note f = split_bucket_fields [OF assms]
  have "localDepth (heap s1 ! cur) = localDepth (heap s ! cur) + 1"
    using f(1) by (simp add: f(10) nth_append)
  with f(3) show ?thesis by simp
qed

lemma Insert_loop_mem_ends: "\<exists>r. Insert_loop_mem lim h s cur k v = Some r"
proof (induction "nat (31 - localDepth (heap s ! cur))" arbitrary: s rule: less_induct)
  case less
  show ?case
  proof (cases "split_bucket_mem lim h s cur")
    case (Inl e)
    then show ?thesis
      by (subst Insert_loop_mem.simps) (simp split: sum.splits)
  next
    case (Inr s1)
    from less [OF split_bucket_depth [OF split_bucket_mem_Inr [OF Inr]]]
    obtain r where "Insert_loop_mem lim h s1 cur k v = Some r" ..
    with Inr show ?thesis
      by (subst Insert_loop_mem.simps) (simp split: sum.splits)
  qed
qed

lemma Insert_loop_mem_ample:
  assumes "4294967296 \<le> lim"
  shows "Insert_loop_mem lim h s cur k v = Insert_loop h s cur k v"
proof (induction "nat (31 - localDepth (heap s ! cur))" arbitrary: s rule: less_induct)
  case less
  note eq = split_bucket_mem_ample [OF assms, of h s cur]
  show ?case
  proof (cases "split_bucket h s cur")
    case (Inl e)
    then show ?thesis
      by (subst Insert_loop_mem.simps, subst Insert_loop.simps) (simp add: eq split: sum.splits)
  next
    case (Inr s1)
    from less [OF split_bucket_depth [OF Inr]]
    have "Insert_loop_mem lim h s1 cur k v = Insert_loop h s1 cur k v" .
    with Inr show ?thesis
      by (subst Insert_loop_mem.simps, subst Insert_loop.simps) (simp add: eq split: sum.splits)
  qed
qed

lemma Insert_mem_ample:
  "4294967296 \<le> lim \<Longrightarrow> Insert_mem lim h s k v = Insert h s k v"
  by (simp add: Insert_mem_def Insert_def Insert_loop_mem_ample split: sum.splits option.splits)

lemma Insert_loop_mem_returns:
  fixes h :: "'k \<Rightarrow> nat" and s :: "('k, 'v) ExtendibleHash"
  shows "Insert_loop_mem lim h s cur k v = Some (Inr s') \<Longrightarrow> Insert_loop h s cur k v = Some (Inr s')"
proof (induction "nat (31 - localDepth (heap s ! cur))" arbitrary: s rule: less_induct)
  case less
  show ?case
  proof (cases "map_of (contents (heap s ! cur)) k \<noteq> None \<or>
            length (contents (heap s ! cur)) < bucketsize s")
    case True
    with less.prems show ?thesis
      by (subst Insert_loop.simps, subst (asm) Insert_loop_mem.simps)
        (auto simp: deref_def split: if_splits)
  next
    case False
    with less.prems obtain s1 where s1: "split_bucket_mem lim h s cur = Inr s1"
      "Insert_loop_mem lim h s1 cur k v = Some (Inr s')"
      by (subst (asm) Insert_loop_mem.simps) (auto simp: deref_def split: if_splits sum.splits)
    note b = split_bucket_mem_Inr [OF s1(1)]
    from less.hyps [OF split_bucket_depth [OF b] s1(2)]
    have "Insert_loop h s1 cur k v = Some (Inr s')" .
    with False b split_bucket_fields(1) [OF b] show ?thesis
      by (subst Insert_loop.simps) (simp add: deref_def)
  qed
qed

lemma Insert_mem_returns:
  "Insert_mem lim h s k v = Some (Inr s') \<Longrightarrow> Insert h s k v = Some (Inr s')"
  unfolding Insert_mem_def Insert_def
  by (auto split: sum.splits option.splits dest: Insert_loop_mem_returns)

lemma Insert_mem_ends: "\<exists>r. Insert_mem lim h s k v = Some r"
proof (cases "bucket_index h s k")
  case (Inl e)
  then show ?thesis by (simp add: Insert_mem_def)
next
  case idx: (Inr idx)
  show ?thesis
  proof (cases "slot s idx")
    case (Inl e)
    with idx show ?thesis by (simp add: Insert_mem_def)
  next
    case (Inr p)
    show ?thesis
    proof (cases p)
      case None
      with idx Inr show ?thesis by (simp add: Insert_mem_def)
    next
      case (Some cur)
      from Insert_loop_mem_ends [of lim h s cur k v]
      obtain r where r: "Insert_loop_mem lim h s cur k v = Some r" ..
      with idx Inr Some show ?thesis
        by (simp add: Insert_mem_def split: sum.splits)
    qed
  qed
qed

lemma Insert_mem_room:
  assumes "bucket_index h s k = Inr idx" and "slot s idx = Inr (Some cur)"
    and "cur < length (heap s)"
    and "map_of (contents (heap s ! cur)) k \<noteq> None \<or>
         length (contents (heap s ! cur)) < bucketsize s"
  shows "Insert_mem lim h s k v =
         Some (Inr (s\<lparr>heap := (heap s)[cur := (heap s ! cur)\<lparr>contents :=
                     AList.update k v (contents (heap s ! cur))\<rparr>]\<rparr>))"
proof -
  let ?s' = "s\<lparr>heap := (heap s)[cur := (heap s ! cur)\<lparr>contents :=
                     AList.update k v (contents (heap s ! cur))\<rparr>]\<rparr>"
  have loop: "Insert_loop_mem lim h s cur k v = Some (Inr ?s')"
    using assms(3,4) by (subst Insert_loop_mem.simps) (simp add: deref_def)
  have "bucket_index h ?s' k = Inr idx" using assms(1) by (simp add: bucket_index_def)
  moreover have "slot ?s' idx = Inr (Some cur)" using assms(2) by (simp add: slot_Inr)
  ultimately show ?thesis using assms(1,2) loop by (simp add: Insert_mem_def)
qed

lemma Insert_loop_mem_stuck:
  assumes "cur < length (heap s)"
    and "map_of (contents (heap s ! cur)) k = None"
    and "bucketsize s \<le> length (contents (heap s ! cur))"
    and "\<forall>(k', v') \<in> set (contents (heap s ! cur)). h k' < 2 ^ nat (localDepth (heap s ! cur))"
  shows "\<exists>e. Insert_loop_mem lim h s cur k v = Some (Inl e)"
  using assms
proof (induction "nat (31 - localDepth (heap s ! cur))" arbitrary: s rule: less_induct)
  case less
  let ?b = "heap s ! cur"
  show ?case
  proof (cases "split_bucket_mem lim h s cur")
    case (Inl e)
    with less.prems show ?thesis
      by (subst Insert_loop_mem.simps) (simp add: deref_def)
  next
    case (Inr s1)
    note sb = split_bucket_mem_Inr [OF Inr]
    note f = split_bucket_fields [OF sb]
    have nobit: "\<forall>x \<in> set (contents ?b). (case x of (k', v') \<Rightarrow> \<not> bit (h k') (nat (localDepth ?b)))"
      using less.prems(4) by (auto dest: not_bit_less_exp)
    have b1: "heap s1 ! cur = \<lparr>localDepth = localDepth ?b + 1, contents = contents ?b\<rparr>"
      using f(1) by (simp add: f(10) nth_append filter_all [OF nobit])
    have le: "(2::nat) ^ nat (localDepth ?b) \<le> 2 ^ nat (localDepth ?b + 1)"
      by (rule power_increasing) simp_all
    have "\<exists>e. Insert_loop_mem lim h s1 cur k v = Some (Inl e)"
    proof (rule less.hyps [OF split_bucket_depth [OF sb]])
      show "cur < length (heap s1)" using f(1) by (simp add: f(10))
      show "map_of (contents (heap s1 ! cur)) k = None" using less.prems(2) by (simp add: b1)
      show "bucketsize s1 \<le> length (contents (heap s1 ! cur))"
        using less.prems(3) by (simp add: b1 f(6))
      show "\<forall>(k', v') \<in> set (contents (heap s1 ! cur)). h k' < 2 ^ nat (localDepth (heap s1 ! cur))"
        using less.prems(4) le unfolding b1 by (auto intro: less_le_trans)
    qed
    with Inr less.prems show ?thesis
      by (subst Insert_loop_mem.simps) (simp add: deref_def)
  qed
qed

lemma card_refs_le: "card {a. Some a \<in> set dir} \<le> length dir"
proof -
  have "Some ` {a. Some a \<in> set dir} \<subseteq> set dir" by auto
  then have "card (Some ` {a. Some a \<in> set dir}) \<le> card (set dir)"
    by (intro card_mono) simp_all
  moreover have "card (Some ` {a. Some a \<in> set dir}) = card {a. Some a \<in> set dir}"
    by (intro card_image) simp
  ultimately show ?thesis using card_length [of dir] by linarith
qed

lemma Insert_loop_mem_throws:
  assumes "wf s" and "Some cur \<in> set (bucket_directory s)" and "globalDepth s \<le> 30"
    and "lim < 2147483648"
    and "map_of (contents (heap s ! cur)) k = None"
    and "bucketsize s \<le> length (contents (heap s ! cur))"
    and "\<forall>(k', v') \<in> set (contents (heap s ! cur)). h k' < 2 ^ nat (localDepth (heap s ! cur))"
  shows "Insert_loop_mem lim h s cur k v = Some (Inl Thrown)"
  using assms
proof (induction "nat (31 - localDepth (heap s ! cur))" arbitrary: s rule: less_induct)
  case less
  let ?b = "heap s ! cur"
  from less.prems(1) have ok: "dir_ok (globalDepth s) (bucket_directory s) (heap s)"
    and nb: "numBuckets s = int (card {a. Some a \<in> set (bucket_directory s)})"
    by (auto simp: wf_def)
  note c = dir_ok_cur [OF ok less.prems(2)]
  note len = wf_length [OF less.prems(1)]
  have "(2::nat) ^ nat (globalDepth s) \<le> 2 ^ 30"
    using less.prems(3) len(1) by (intro power_increasing) simp_all
  then have len_le: "length (bucket_directory s) \<le> 1073741824" using len(2) by simp
  have nb_lt: "numBuckets s < 2147483647"
    using nb card_refs_le [of "bucket_directory s"] len_le by linarith
  have shl: "shl1 (localDepth ?b) = Some (2 ^ nat (localDepth ?b))"
    using c(2,3) less.prems(3) by (simp add: shl1_def)
  show ?case
  proof (cases "split_bucket_mem lim h s cur")
    case (Inl e)
    have "split_bucket h s cur \<noteq> Inl e'" for e'
      using c(1) shl nb_lt len_le
      by (auto simp: split_bucket_def deref_def Let_def)
    with Inl c(1) shl len_le have "e = Thrown"
      by (auto simp: split_bucket_mem_def deref_def split: if_splits)
    with Inl less.prems c(1) show ?thesis
      by (subst Insert_loop_mem.simps) (simp add: deref_def)
  next
    case (Inr s1)
    note sb = split_bucket_mem_Inr [OF Inr]
    note f = split_bucket_fields [OF sb]
    have nobit: "\<forall>x \<in> set (contents ?b). (case x of (k', v') \<Rightarrow> \<not> bit (h k') (nat (localDepth ?b)))"
      using less.prems(7) by (auto dest: not_bit_less_exp)
    have b1: "heap s1 ! cur = \<lparr>localDepth = localDepth ?b + 1, contents = contents ?b\<rparr>"
      using f(1) by (simp add: f(10) nth_append filter_all [OF nobit])
    have le: "(2::nat) ^ nat (localDepth ?b) \<le> 2 ^ nat (localDepth ?b + 1)"
      by (rule power_increasing) simp_all
    have gd1: "globalDepth s1 \<le> 30"
    proof (cases "localDepth ?b + 1 > globalDepth s")
      case False
      with f(8) less.prems(3) show ?thesis by simp
    next
      case True
      with Inr c(1) shl have "2 * length (bucket_directory s) \<le> lim"
        by (auto simp: split_bucket_mem_def deref_def split: if_splits)
      with less.prems(4) len(2) have "(2::nat) ^ nat (globalDepth s) < 2 ^ 30" by simp
      then have "nat (globalDepth s) < 30" by (simp only: power_strict_increasing_iff)
      with True f(8) len(1) show ?thesis by simp
    qed
    have "Insert_loop_mem lim h s1 cur k v = Some (Inl Thrown)"
    proof (rule less.hyps [OF split_bucket_depth [OF sb]])
      show "wf s1" by (rule split_bucket_wf(1) [OF less.prems(1,2) sb])
      show "Some cur \<in> set (bucket_directory s1)" by (rule split_bucket_wf(2) [OF less.prems(1,2) sb])
      show "globalDepth s1 \<le> 30" by (rule gd1)
      show "lim < 2147483648" by (rule less.prems(4))
      show "map_of (contents (heap s1 ! cur)) k = None" using less.prems(5) by (simp add: b1)
      show "bucketsize s1 \<le> length (contents (heap s1 ! cur))"
        using less.prems(6) by (simp add: b1 f(6))
      show "\<forall>(k', v') \<in> set (contents (heap s1 ! cur)). h k' < 2 ^ nat (localDepth (heap s1 ! cur))"
        using less.prems(7) le unfolding b1 by (auto intro: less_le_trans)
    qed
    with Inr less.prems c(1) show ?thesis
      by (subst Insert_loop_mem.simps) (simp add: deref_def)
  qed
qed

lemma Insert_mem_stuck:
  assumes "bucket_index h s k = Inr idx" and "slot s idx = Inr (Some cur)"
    and "cur < length (heap s)"
    and "map_of (contents (heap s ! cur)) k = None"
    and "bucketsize s \<le> length (contents (heap s ! cur))"
    and "\<forall>(k', v') \<in> set (contents (heap s ! cur)). h k' < 2 ^ nat (localDepth (heap s ! cur))"
  shows "\<exists>e. Insert_mem lim h s k v = Some (Inl e)"
proof -
  from Insert_loop_mem_stuck [OF assms(3-6), of lim v]
  obtain e where "Insert_loop_mem lim h s cur k v = Some (Inl e)" ..
  with assms(1,2) show ?thesis by (simp add: Insert_mem_def)
qed

lemma Insert_mem_throws:
  assumes "wf s" and "lim < 2147483648"
    and "bucket_index h s k = Inr idx" and "slot s idx = Inr (Some cur)"
    and "map_of (contents (heap s ! cur)) k = None"
    and "bucketsize s \<le> length (contents (heap s ! cur))"
    and "\<forall>(k', v') \<in> set (contents (heap s ! cur)). h k' < 2 ^ nat (localDepth (heap s ! cur))"
  shows "Insert_mem lim h s k v = Some (Inl Thrown)"
proof -
  from assms(3) have gd: "globalDepth s \<le> 30" by (simp add: bucket_index_Inr)
  from assms(4) have "idx < length (bucket_directory s)" "bucket_directory s ! idx = Some cur"
    by (simp_all add: slot_Inr)
  then have cur: "Some cur \<in> set (bucket_directory s)" by (metis nth_mem)
  from Insert_loop_mem_throws [OF assms(1) cur gd assms(2) assms(5-7), of v]
  show ?thesis using assms(3,4) by (simp add: Insert_mem_def)
qed

text \<open>The part of the removal contract that the code keeps: an absent key changes nothing.\<close>

lemma Remove_absent:
  assumes "Find h s k = Inr None"
  shows "Remove h s k = Inr (False, s)"
  using assms unfolding Find_def Remove_def
  by (auto split: sum.splits option.splits)

text \<open>No bucket of a reachable table lists a key twice.\<close>

lemma split_bucket_keys_distinct:
  assumes "keys_distinct s" "split_bucket h s cur = Inr s'"
  shows "keys_distinct s'"
proof -
  note f = split_bucket_fields [OF assms(2)]
  from assms(1) have all: "\<And>b. b \<in> set (heap s) \<Longrightarrow> distinct (map fst (contents b))"
    by (simp add: keys_distinct_def list_all_iff)
  have cur: "distinct (map fst (contents (heap s ! cur)))"
    using all f(1) by simp
  show ?thesis
    unfolding keys_distinct_def list_all_iff f(10)
    using all cur by (auto simp: distinct_map_filter dest: set_update_subset_insert [THEN subsetD])
qed

lemma Insert_loop_keys_distinct:
  assumes "keys_distinct s" "Insert_loop h s cur k v = Some (Inr s')"
  shows "keys_distinct s'"
proof -
  have "\<exists>t. keys_distinct t \<and> cur < length (heap t) \<and>
           (map_of (contents (heap t ! cur)) k \<noteq> None \<or>
            length (contents (heap t ! cur)) < bucketsize t) \<and>
           s' = t\<lparr>heap := (heap t)[cur := (heap t ! cur)\<lparr>contents :=
                     AList.update k v (contents (heap t ! cur))\<rparr>]\<rparr>"
    by (rule Insert_loop_rule [OF assms(2), where P = keys_distinct])
      (rule assms(1), rule split_bucket_keys_distinct)
  then obtain t where t: "keys_distinct t" "cur < length (heap t)"
    "s' = t\<lparr>heap := (heap t)[cur := (heap t ! cur)\<lparr>contents :=
                     AList.update k v (contents (heap t ! cur))\<rparr>]\<rparr>"
    by (elim exE conjE)
  from t(1) have all: "\<And>b. b \<in> set (heap t) \<Longrightarrow> distinct (map fst (contents b))"
    by (simp add: keys_distinct_def list_all_iff)
  have "distinct (map fst (AList.update k v (contents (heap t ! cur))))"
    using all t(2) by (simp add: distinct_update)
  with all show ?thesis
    unfolding t(3) keys_distinct_def list_all_iff
    by (auto dest: set_update_subset_insert [THEN subsetD])
qed

lemma run_keys_distinct:
  "keys_distinct s \<Longrightarrow> run h s ops = Some (Inr s') \<Longrightarrow> keys_distinct s'"
proof (induction ops arbitrary: s)
  case Nil
  then show ?case by simp
next
  case (Cons op ops)
  show ?case
  proof (cases op)
    case (OpFind k)
    with Cons show ?thesis by (auto split: sum.splits)
  next
    case (OpInsert k v)
    with Cons.prems obtain s1 where s1: "Insert h s k v = Some (Inr s1)" "run h s1 ops = Some (Inr s')"
      by (auto split: sum.splits option.splits)
    from Insert_Inr [OF s1(1)] have "keys_distinct s1"
    proof
      assume "s1 = s"
      with Cons.prems(1) show ?thesis by simp
    next
      assume "\<exists>cur. Some cur \<in> set (bucket_directory s) \<and> Insert_loop h s cur k v = Some (Inr s1)"
      then obtain cur where "Insert_loop h s cur k v = Some (Inr s1)" by (elim exE conjE)
      from Insert_loop_keys_distinct [OF Cons.prems(1) this] show ?thesis .
    qed
    from Cons.IH [OF this s1(2)] show ?thesis .
  next
    case (OpRemove k)
    with Cons.prems obtain r s1 where s1: "Remove h s k = Inr (r, s1)" "run h s1 ops = Some (Inr s')"
      by (auto split: sum.splits)
    from Cons.prems(1) Remove_fields(4) [OF s1(1)] have "keys_distinct s1"
      by (simp add: keys_distinct_def)
    from Cons.IH [OF this s1(2)] show ?thesis .
  qed
qed

lemma reachable_keys_distinct:
  "run h (ExtendibleHash_init n) ops = Some (Inr s) \<Longrightarrow> keys_distinct s"
  by (rule run_keys_distinct [of "ExtendibleHash_init n"])
    (simp_all add: keys_distinct_def ExtendibleHash_init_def)

section \<open>Example runs\<close>

lemma run_table_0_1_3:
  "run (\<lambda>k. k) (ExtendibleHash_init 2) [OpInsert 0 10, OpInsert 1 11, OpInsert 3 13] =
   Some (Inr table_0_1_3)"
  by code_simp

section \<open>The claims\<close>

text \<open>
  C1. Claim: for every key \<open>k\<close> and value \<open>v\<close>, after \<open>Insert(k, v)\<close> completes on a
  reachable table, \<open>Find(k)\<close> returns \<open>v\<close>. The code does not do this. With buckets of
  two entries and keys hashed to themselves, the inserts of 0, 1 and 3 complete; the
  third finds bucket 0 full, splits it once and stores key 3 in the bucket it was
  splitting, which slot 0 holds; \<open>Find\<close> routes key 3 to slot 1 and reports it absent.
\<close>

theorem Find_misses_inserted_key:
  "run (\<lambda>k. k) (ExtendibleHash_init 2) [OpInsert 0 10, OpInsert 1 11, OpInsert 3 13] =
     Some (Inr table_0_1_3) \<and>
   Find (\<lambda>k. k) table_0_1_3 3 = Inr None"
  by code_simp

text \<open>
  C2. Claim: every operation keeps the keys of a bucket of local depth \<open>d\<close> equal on
  the low \<open>d\<close> bits of their hashes, because the pending insert is routed again after
  a split. The code does not do this: the statements that recompute \<open>id\<close> and
  \<open>curr\<close> stand after the loop, so the loop stores the key in the bucket it split.
  After the inserts of 0, 1 and 3 the bucket of slot 0 has local depth 1 and holds the
  keys 0 and 3, whose hashes differ in bit 0, and key 3 is in the bucket of slot 0
  although the masking rule maps it to slot 1.
\<close>

theorem split_leaves_key_in_wrong_bucket:
  "run (\<lambda>k. k) (ExtendibleHash_init 2) [OpInsert 0 10, OpInsert 1 11, OpInsert 3 13] =
     Some (Inr table_0_1_3) \<and>
   bucket_directory table_0_1_3 ! 0 = Some 0 \<and>
   localDepth (heap table_0_1_3 ! 0) = 1 \<and>
   map_of (contents (heap table_0_1_3 ! 0)) 3 = Some 13 \<and>
   \<not> discriminant_ok (\<lambda>k. k) (heap table_0_1_3 ! 0) \<and>
   bucket_index (\<lambda>k. k) table_0_1_3 3 = Inr 1"
  by code_simp

text \<open>
  C3. Claim: every call of \<open>Insert\<close> terminates, the cascade of splits being capped at
  the width of the hash, and an insert whose colliding keys cannot be separated reports
  a fatal capacity error to the caller. The code has no cap and no such error. On the
  reachable table whose one-entry bucket is full, with every key hashed to 0, the
  insert of a second key splits the same bucket again and again and doubles the
  directory each time. With memory for the directory the cascade runs until
  \<open>1 << localDepth\<close> leaves the range of \<open>int\<close>: undefined behaviour, no error. With
  memory for four slots it ends when \<open>push_back\<close> throws \<open>std::bad_alloc\<close>: the
  allocator's exception, raised because memory ran out and not because a cap was reached.
\<close>

theorem colliding_insert_meets_no_cap:
  "run (\<lambda>k. 0) (ExtendibleHash_init 1) [OpInsert 0 10] = Some (Inr table_full) \<and>
   Insert_mem 4294967296 (\<lambda>k. 0) table_full 1 11 = Some (Inl Undefined) \<and>
   Insert_mem 4 (\<lambda>k. 0) table_full 1 11 = Some (Inl Thrown)"
proof -
  have "run (\<lambda>k. 0) (ExtendibleHash_init 1) [OpInsert 0 10] = Some (Inr table_full)"
    by code_simp
  moreover have "Insert (\<lambda>k. 0) table_full 1 11 = Some (Inl Undefined)"
    by (rule Insert_stuck [where idx = 0 and cur = 0])
      (simp_all add: table_full_def bucket_index_def shl1_def slot_def)
  then have "Insert_mem 4294967296 (\<lambda>k. 0) table_full 1 11 = Some (Inl Undefined)"
    by (simp add: Insert_mem_ample)
  moreover have "Insert_mem 4 (\<lambda>k. 0) table_full 1 11 = Some (Inl Thrown)"
    by code_simp
  ultimately show ?thesis by (intro conjI)
qed

text \<open>
  C3, as amended: \<open>Insert\<close> has no cap on the cascade of splits and no capacity error.
  Every call ends: with the table updated, with \<open>std::bad_alloc\<close> from the doubling of
  the directory, or in undefined behaviour. A call whose bucket holds the key or has
  room stores the entry in that bucket without a split. A call whose bucket is full of
  other keys, where neither their hashes nor the hash of the new key have a bit set at
  or above the local depth, so that no further bit separates them, never stores the
  entry: it ends in \<open>std::bad_alloc\<close> when the table is reachable and the memory holds
  fewer than \<open>2 ^ 31\<close> directory slots, and in undefined behaviour (the shift by the
  local depth leaving the range of \<open>int\<close>) when the memory holds \<open>2 ^ 32\<close> slots.
\<close>

theorem Insert_cascade_is_uncapped:
  "(\<exists>r. Insert_mem max_slots HashKey s key val = Some r) \<and>
   (\<forall>idx cur. bucket_index HashKey s key = Inr idx \<and> slot s idx = Inr (Some cur) \<and>
      cur < length (heap s) \<and>
      (map_of (contents (heap s ! cur)) key \<noteq> None \<or>
       length (contents (heap s ! cur)) < bucketsize s) \<longrightarrow>
      Insert_mem max_slots HashKey s key val =
        Some (Inr (s\<lparr>heap := (heap s)[cur := (heap s ! cur)\<lparr>contents :=
                     AList.update key val (contents (heap s ! cur))\<rparr>]\<rparr>))) \<and>
   (\<forall>idx cur. bucket_index HashKey s key = Inr idx \<and> slot s idx = Inr (Some cur) \<and>
      cur < length (heap s) \<and> map_of (contents (heap s ! cur)) key = None \<and>
      bucketsize s \<le> length (contents (heap s ! cur)) \<and>
      HashKey key < 2 ^ nat (localDepth (heap s ! cur)) \<and>
      (\<forall>(k', v') \<in> set (contents (heap s ! cur)).
         HashKey k' < 2 ^ nat (localDepth (heap s ! cur))) \<longrightarrow>
      (\<exists>e. Insert_mem max_slots HashKey s key val = Some (Inl e)) \<and>
      (4294967296 \<le> max_slots \<longrightarrow>
         Insert_mem max_slots HashKey s key val = Some (Inl Undefined)) \<and>
      (max_slots < 2147483648 \<and>
       (\<exists>sz ops. run HashKey (ExtendibleHash_init sz) ops = Some (Inr s)) \<longrightarrow>
         Insert_mem max_slots HashKey s key val = Some (Inl Thrown)))"
proof (intro conjI allI impI)
  show "\<exists>r. Insert_mem max_slots HashKey s key val = Some r"
    by (rule Insert_mem_ends)
next
  fix idx cur
  assume "bucket_index HashKey s key = Inr idx \<and> slot s idx = Inr (Some cur) \<and>
      cur < length (heap s) \<and>
      (map_of (contents (heap s ! cur)) key \<noteq> None \<or>
       length (contents (heap s ! cur)) < bucketsize s)"
  then show "Insert_mem max_slots HashKey s key val =
        Some (Inr (s\<lparr>heap := (heap s)[cur := (heap s ! cur)\<lparr>contents :=
                     AList.update key val (contents (heap s ! cur))\<rparr>]\<rparr>))"
    by (intro Insert_mem_room [where idx = idx]) simp_all
next
  fix idx cur
  assume h: "bucket_index HashKey s key = Inr idx \<and> slot s idx = Inr (Some cur) \<and>
      cur < length (heap s) \<and> map_of (contents (heap s ! cur)) key = None \<and>
      bucketsize s \<le> length (contents (heap s ! cur)) \<and>
      HashKey key < 2 ^ nat (localDepth (heap s ! cur)) \<and>
      (\<forall>(k', v') \<in> set (contents (heap s ! cur)).
         HashKey k' < 2 ^ nat (localDepth (heap s ! cur)))"
  then show "\<exists>e. Insert_mem max_slots HashKey s key val = Some (Inl e)"
    by (intro Insert_mem_stuck [where idx = idx and cur = cur]) simp_all
  {
    assume "4294967296 \<le> max_slots"
    moreover from h have "Insert HashKey s key val = Some (Inl Undefined)"
      by (intro Insert_stuck [where idx = idx and cur = cur]) simp_all
    ultimately show "Insert_mem max_slots HashKey s key val = Some (Inl Undefined)"
      by (simp add: Insert_mem_ample)
  }
  {
    assume r: "max_slots < 2147483648 \<and>
       (\<exists>sz ops. run HashKey (ExtendibleHash_init sz) ops = Some (Inr s))"
    then obtain sz ops where "run HashKey (ExtendibleHash_init sz) ops = Some (Inr s)"
      by (elim exE conjE)
    then have "wf s" by (rule run_wf_init)
    with r h show "Insert_mem max_slots HashKey s key val = Some (Inl Thrown)"
      by (intro Insert_mem_throws [where idx = idx and cur = cur]) simp_all
  }
qed

theorem Insert_cascade_is_uncapped_witness:
  "bucket_index (\<lambda>k. k) table_5 7 = Inr 0 \<and> slot table_5 0 = Inr (Some 0) \<and>
   length (contents (heap table_5 ! 0)) < bucketsize table_5 \<and>
   Insert_mem 4 (\<lambda>k. k) table_5 7 70 =
     Some (Inr (table_5\<lparr>heap := [\<lparr>localDepth = 0, contents = [(5, 50), (7, 70)]\<rparr>]\<rparr>)) \<and>
   run (\<lambda>k. k mod 2) (ExtendibleHash_init 1) [OpInsert 0 10] = Some (Inr table_full) \<and>
   bucket_index (\<lambda>k. k mod 2) table_full 2 = Inr 0 \<and> slot table_full 0 = Inr (Some 0) \<and>
   map_of (contents (heap table_full ! 0)) 2 = None \<and>
   bucketsize table_full \<le> length (contents (heap table_full ! 0)) \<and>
   (2::nat) mod 2 < 2 ^ nat (localDepth (heap table_full ! 0)) \<and>
   list_all (\<lambda>(k', v'). k' mod 2 < 2 ^ nat (localDepth (heap table_full ! 0)))
     (contents (heap table_full ! 0)) \<and>
   Insert_mem 4 (\<lambda>k. k mod 2) table_full 2 12 = Some (Inl Thrown) \<and>
   Insert_mem 4294967296 (\<lambda>k. k mod 2) table_full 2 12 = Some (Inl Undefined)"
proof -
  have room: "bucket_index (\<lambda>k. k) table_5 7 = Inr 0 \<and> slot table_5 0 = Inr (Some 0) \<and>
      0 < length (heap table_5) \<and>
      (map_of (contents (heap table_5 ! 0)) 7 \<noteq> None \<or>
       length (contents (heap table_5 ! 0)) < bucketsize table_5)"
    by (simp add: table_5_def bucket_index_def shl1_def slot_def)
  from Insert_cascade_is_uncapped [of 4 "\<lambda>k. k" table_5 7 70] room
  have "Insert_mem 4 (\<lambda>k. k) table_5 7 70 =
      Some (Inr (table_5\<lparr>heap := (heap table_5)[0 := (heap table_5 ! 0)\<lparr>contents :=
                     AList.update 7 70 (contents (heap table_5 ! 0))\<rparr>]\<rparr>))"
    by blast
  then have r1: "Insert_mem 4 (\<lambda>k. k) table_5 7 70 =
      Some (Inr (table_5\<lparr>heap := [\<lparr>localDepth = 0, contents = [(5, 50), (7, 70)]\<rparr>]\<rparr>))"
    by (simp add: table_5_def)
  have reach: "run (\<lambda>k. k mod 2) (ExtendibleHash_init 1) [OpInsert 0 10] = Some (Inr table_full)"
    by code_simp
  have stuck: "bucket_index (\<lambda>k. k mod 2) table_full 2 = Inr 0 \<and> slot table_full 0 = Inr (Some 0) \<and>
      0 < length (heap table_full) \<and> map_of (contents (heap table_full ! 0)) 2 = None \<and>
      bucketsize table_full \<le> length (contents (heap table_full ! 0)) \<and>
      (2::nat) mod 2 < 2 ^ nat (localDepth (heap table_full ! 0)) \<and>
      (\<forall>(k', v') \<in> set (contents (heap table_full ! 0)).
         k' mod 2 < 2 ^ nat (localDepth (heap table_full ! 0)))"
    by (simp add: table_full_def bucket_index_def shl1_def slot_def)
  have lim: "(4::nat) < 2147483648" "(4294967296::nat) \<le> 4294967296" by simp_all
  from Insert_cascade_is_uncapped [of 4 "\<lambda>k. k mod 2" table_full 2 12] stuck reach lim(1)
  have r2: "Insert_mem 4 (\<lambda>k. k mod 2) table_full 2 12 = Some (Inl Thrown)"
    by blast
  from Insert_cascade_is_uncapped [of 4294967296 "\<lambda>k. k mod 2" table_full 2 12] stuck lim(2)
  have r3: "Insert_mem 4294967296 (\<lambda>k. k mod 2) table_full 2 12 = Some (Inl Undefined)"
    by blast
  from room stuck reach r1 r2 r3 show ?thesis
    by (simp add: list_all_iff table_5_def)
qed

text \<open>
  C4. Claim: if \<open>Remove(k)\<close> returns true, a following \<open>Find(k)\<close> reports the key
  absent; removing an absent key returns false and changes nothing. The code does not
  do the first: \<open>Remove\<close> looks the key up in \<open>container -> pairs\<close> and then calls
  \<open>pairs.erase(key)\<close> without the \<open>container ->\<close>, so the bucket keeps the entry.
  On the table that holds key 5, \<open>Remove\<close> returns true, the table is unchanged and
  \<open>Find\<close> still returns the value.
\<close>

theorem Remove_true_leaves_entry:
  "run (\<lambda>k. k) (ExtendibleHash_init 2) [OpInsert 5 50] = Some (Inr table_5) \<and>
   Remove (\<lambda>k. k) table_5 5 = Inr (True, table_5) \<and>
   Find (\<lambda>k. k) table_5 5 = Inr (Some 50)"
  by code_simp

text \<open>
  C5. Claim: for a slot index inside the directory \<open>GetLocalDepth\<close> returns the local
  depth of the bucket of that slot, and for an index outside it fails with an
  out-of-range error that reaches the caller. The second half fails: the code
  subscripts the vector with \<open>operator[]\<close>, which checks nothing, so an index outside
  the directory is undefined behaviour and nothing is thrown.
\<close>

theorem GetLocalDepth_out_of_range_not_thrown:
  "GetLocalDepth table_0_1_3 2 = Inl Undefined \<and> GetLocalDepth table_0_1_3 2 \<noteq> Inl Thrown \<and>
   GetLocalDepth table_0_1_3 (- 1) = Inl Undefined \<and> GetLocalDepth table_0_1_3 (- 1) \<noteq> Inl Thrown"
  by code_simp

text \<open>
  C5, as amended: in every reachable state, for a slot index inside the directory
  \<open>GetLocalDepth\<close> returns the local depth of the bucket that the slot holds; for an
  index outside the directory the subscript is unchecked and the behaviour undefined.
\<close>

theorem GetLocalDepth_in_range:
  assumes "run HashKey (ExtendibleHash_init sz) ops = Some (Inr s)"
  shows "(0 \<le> i \<and> i < int (length (bucket_directory s)) \<longrightarrow>
           (\<exists>a. bucket_directory s ! nat i = Some a \<and> a < length (heap s) \<and>
                GetLocalDepth s i = Inr (localDepth (heap s ! a)))) \<and>
         (\<not> (0 \<le> i \<and> i < int (length (bucket_directory s))) \<longrightarrow>
           GetLocalDepth s i = Inl Undefined)"
proof (intro conjI impI)
  assume i: "0 \<le> i \<and> i < int (length (bucket_directory s))"
  then have "nat i < length (bucket_directory s)" by linarith
  from wf_slot [OF run_wf_init [OF assms] this] i this
  show "\<exists>a. bucket_directory s ! nat i = Some a \<and> a < length (heap s) \<and>
                GetLocalDepth s i = Inr (localDepth (heap s ! a))"
    by (auto simp: GetLocalDepth_def slot_int_def slot_def deref_def)
next
  assume "\<not> (0 \<le> i \<and> i < int (length (bucket_directory s)))"
  then show "GetLocalDepth s i = Inl Undefined"
    by (auto simp: GetLocalDepth_def slot_int_def slot_def)
qed

theorem GetLocalDepth_in_range_witness:
  "run (\<lambda>k. k) (ExtendibleHash_init 2) [OpInsert 0 10, OpInsert 1 11, OpInsert 3 13] =
     Some (Inr table_0_1_3) \<and>
   bucket_directory table_0_1_3 ! nat 1 = Some 1 \<and>
   GetLocalDepth table_0_1_3 1 = Inr (localDepth (heap table_0_1_3 ! 1)) \<and>
   GetLocalDepth table_0_1_3 2 = Inl Undefined"
  using GetLocalDepth_in_range [OF run_table_0_1_3, of 1]
    GetLocalDepth_in_range [OF run_table_0_1_3, of 2] run_table_0_1_3
  by (simp add: table_0_1_3_def)

text \<open>
  C6. In every reachable state \<open>GetNumBuckets\<close> returns the number of distinct buckets
  that the directory slots hold, aliased slots counted once: the counter \<open>numBuckets\<close>
  equals the count of the slots' addresses without repetition.
\<close>

theorem GetNumBuckets_counts_distinct_buckets:
  "run HashKey (ExtendibleHash_init sz) ops = Some (Inr s) \<Longrightarrow>
   GetNumBuckets s = int (distinct_bucket_count s)"
  using run_wf_init [of HashKey sz ops s]
  by (simp add: GetNumBuckets_def distinct_bucket_count_card wf_def)

theorem GetNumBuckets_counts_distinct_buckets_witness:
  "run (\<lambda>k. k) (ExtendibleHash_init 2) [OpInsert 0 10, OpInsert 1 11, OpInsert 3 13] =
     Some (Inr table_0_1_3) \<and>
   GetNumBuckets table_0_1_3 = 2 \<and> distinct_bucket_count table_0_1_3 = 2"
proof -
  have "distinct_bucket_count table_0_1_3 = 2" by code_simp
  with GetNumBuckets_counts_distinct_buckets [OF run_table_0_1_3] run_table_0_1_3
  show ?thesis by simp
qed

text \<open>
  C7. In every reachable state, that is after construction and after every \<open>Find\<close>,
  \<open>Insert\<close> or \<open>Remove\<close> that completes, the directory has \<open>2 ^ globalDepth\<close> slots.
\<close>

theorem directory_size_is_power_of_globalDepth:
  "run HashKey (ExtendibleHash_init sz) ops = Some (Inr s) \<Longrightarrow>
   0 \<le> GetGlobalDepth s \<and> length (bucket_directory s) = 2 ^ nat (GetGlobalDepth s)"
  using wf_length [OF run_wf_init [of HashKey sz ops s]]
  by (simp add: GetGlobalDepth_def)

theorem directory_size_is_power_of_globalDepth_witness:
  "run (\<lambda>k. k) (ExtendibleHash_init 2)
     [OpInsert 0 10, OpFind 0, OpInsert 1 11, OpRemove 1, OpInsert 3 13] = Some (Inr table_0_1_3) \<and>
   GetGlobalDepth table_0_1_3 = 1 \<and> length (bucket_directory table_0_1_3) = 2 ^ nat 1"
proof -
  have r: "run (\<lambda>k. k) (ExtendibleHash_init 2)
      [OpInsert 0 10, OpFind 0, OpInsert 1 11, OpRemove 1, OpInsert 3 13] = Some (Inr table_0_1_3)"
    by code_simp
  have "GetGlobalDepth table_0_1_3 = 1" by code_simp
  with directory_size_is_power_of_globalDepth [OF r] r show ?thesis by simp
qed

text \<open>
  C8. In every reachable state, for every valid slot index \<open>i\<close>, the local depth of the
  bucket that slot \<open>i\<close> holds is at most the global depth.
\<close>

theorem localDepth_le_globalDepth:
  assumes "run HashKey (ExtendibleHash_init sz) ops = Some (Inr s)"
    and "0 \<le> i" and "i < int (length (bucket_directory s))"
  shows "\<exists>d. GetLocalDepth s i = Inr d \<and> d \<le> GetGlobalDepth s"
proof -
  from assms(2,3) have "nat i < length (bucket_directory s)" by linarith
  from wf_slot [OF run_wf_init [OF assms(1)] this] assms(2) this show ?thesis
    by (auto simp: GetLocalDepth_def GetGlobalDepth_def slot_int_def slot_def deref_def)
qed

theorem localDepth_le_globalDepth_witness:
  "run (\<lambda>k. k) (ExtendibleHash_init 2) [OpInsert 0 10, OpInsert 1 11, OpInsert 3 13] =
     Some (Inr table_0_1_3) \<and>
   (0::int) \<le> 1 \<and> 1 < int (length (bucket_directory table_0_1_3)) \<and>
   (\<exists>d. GetLocalDepth table_0_1_3 1 = Inr d \<and> d \<le> GetGlobalDepth table_0_1_3)"
proof -
  have h: "(0::int) \<le> 1" "1 < int (length (bucket_directory table_0_1_3))"
    by (simp_all add: table_0_1_3_def)
  from localDepth_le_globalDepth [OF run_table_0_1_3 h] run_table_0_1_3 h
  show ?thesis by simp
qed

text \<open>
  C9. Across every sequence of operations, from any state, the values of
  \<open>GetGlobalDepth\<close> and \<open>GetNumBuckets\<close> never decrease, and neither does the number of
  directory slots: no operation, \<open>Remove\<close> included, merges buckets or shrinks the
  directory.
\<close>

theorem depth_and_bucket_count_never_decrease:
  "run HashKey s ops = Some (Inr s') \<Longrightarrow>
   GetGlobalDepth s \<le> GetGlobalDepth s' \<and> GetNumBuckets s \<le> GetNumBuckets s' \<and>
   length (bucket_directory s) \<le> length (bucket_directory s')"
  using run_mono [of HashKey s ops s']
  by (simp add: GetGlobalDepth_def GetNumBuckets_def)

theorem depth_and_bucket_count_never_decrease_witness:
  "run (\<lambda>k. k) table_0_1_3 [OpRemove 0, OpRemove 1, OpFind 3, OpInsert 2 12] =
     Some (Inr table_0_1_2_3) \<and>
   GetGlobalDepth table_0_1_3 \<le> GetGlobalDepth table_0_1_2_3 \<and>
   GetNumBuckets table_0_1_3 \<le> GetNumBuckets table_0_1_2_3 \<and>
   length (bucket_directory table_0_1_3) \<le> length (bucket_directory table_0_1_2_3)"
proof -
  have r: "run (\<lambda>k. k) table_0_1_3 [OpRemove 0, OpRemove 1, OpFind 3, OpInsert 2 12] =
      Some (Inr table_0_1_2_3)"
    by code_simp
  from depth_and_bucket_count_never_decrease [OF r] r show ?thesis by simp
qed

text \<open>
  C10. In every reachable state every directory slot holds a bucket and not the null
  pointer; so the slot that an operation routes a key to is never null, and the
  branches of \<open>Find\<close>, \<open>Remove\<close> and \<open>Insert\<close> for a null slot are never taken.
\<close>

theorem directory_slots_never_null:
  assumes "run HashKey (ExtendibleHash_init sz) ops = Some (Inr s)"
  shows "None \<notin> set (bucket_directory s) \<and>
         (\<forall>key idx. bucket_index HashKey s key = Inr idx \<longrightarrow> (\<exists>a. slot s idx = Inr (Some a)))"
proof -
  note wf = run_wf_init [OF assms]
  have "None \<notin> set (bucket_directory s)"
    using wf_slot [OF wf] by (auto simp: in_set_conv_nth)
  moreover have "\<exists>a. slot s idx = Inr (Some a)" if "bucket_index HashKey s key = Inr idx" for key idx
  proof -
    from that have "idx = take_bit (nat (globalDepth s)) (HashKey key)"
      by (simp add: bucket_index_Inr)
    then have "idx < length (bucket_directory s)"
      by (simp add: wf_length(2) [OF wf] take_bit_nat_less_exp)
    from wf_slot [OF wf this] this show ?thesis
      by (auto simp: slot_def)
  qed
  ultimately show ?thesis by blast
qed

theorem directory_slots_never_null_witness:
  "run (\<lambda>k. k) (ExtendibleHash_init 2) [OpInsert 0 10, OpInsert 1 11, OpInsert 3 13] =
     Some (Inr table_0_1_3) \<and>
   None \<notin> set (bucket_directory table_0_1_3) \<and>
   bucket_index (\<lambda>k. k) table_0_1_3 3 = Inr 1 \<and> slot table_0_1_3 1 = Inr (Some 1)"
proof -
  have b: "bucket_index (\<lambda>k. k) table_0_1_3 3 = Inr 1" by code_simp
  have "slot table_0_1_3 1 = Inr (Some 1)" by code_simp
  with directory_slots_never_null [OF run_table_0_1_3] run_table_0_1_3 b
  show ?thesis by blast
qed

end
